theory Spec2Isabelle
  imports Complex_Main
begin

section \<open>Common conventions\<close>

text \<open>
  The two pipelines are C++ member functions that mutate their object, talk to an ADIOS2
  stream and take part in MPI collectives. The model passes the object explicitly and
  returns it updated. Whatever leaves the defined behaviour of C++ or aborts the process
  (an index outside a vector, a signed overflow, a length that cannot be allocated, an
  erroneous MPI call) is a value of type \<open>error\<close>, so a function that can fail returns
  \<open>error + 'a\<close> with \<open>Inl\<close> for the failure. Values of type \<open>double\<close> and \<open>float\<close>
  are modelled as exact reals: rounding is outside the model.
\<close>

datatype error =
    OutOfBounds
  | IntOverflow
  | LengthError
  | FloatToIntUB
  | MpiError

definition and_then :: "error + 'a \<Rightarrow> ('a \<Rightarrow> error + 'b) \<Rightarrow> error + 'b" where
  "and_then m f = (case m of Inl e \<Rightarrow> Inl e | Inr x \<Rightarrow> f x)"

text \<open>A \<open>for\<close> loop over the given indices (or elements); the first failure ends it.\<close>

fun for_each :: "'i list \<Rightarrow> ('i \<Rightarrow> 's \<Rightarrow> error + 's) \<Rightarrow> 's \<Rightarrow> error + 's" where
  "for_each [] body s = Inr s"
| "for_each (i # is) body s = and_then (body i s) (for_each is body)"

definition INT_MAX :: int where
  "INT_MAX = 2 ^ 31 - 1"

text \<open>
  Conversion of an integer value to the 32-bit \<open>int\<close>: the value modulo \<open>2 ^ 32\<close>, read as
  two's complement. Arithmetic in \<open>size_t\<close> is modulo \<open>2 ^ 64\<close>, a multiple of \<open>2 ^ 32\<close>,
  so \<open>int n = a * b\<close> with \<open>size_t\<close> operands is \<open>to_int32\<close> of the exact product.
\<close>

definition to_int32 :: "int \<Rightarrow> int" where
  "to_int32 x = (x + 2 ^ 31) mod 2 ^ 32 - 2 ^ 31"

text \<open>
  \<open>int(x)\<close> for a \<open>double\<close>: truncation toward zero, undefined when the truncated value
  is not an \<open>int\<close>.
\<close>

definition trunc :: "real \<Rightarrow> int" where
  "trunc x = (if 0 \<le> x then \<lfloor>x\<rfloor> else \<lceil>x\<rceil>)"

definition double_to_int :: "real \<Rightarrow> error + int" where
  "double_to_int x =
     (if - (2 ^ 31) \<le> trunc x \<and> trunc x \<le> INT_MAX then Inr (trunc x) else Inl FloatToIntUB)"

section \<open>Block partitioning\<close>

text \<open>
  Modelled from the spec: \<open>split_vector\<close> is declared in \<open>util.hpp\<close>, which is not
  available; only its call sites in \<open>Diffusion::step\<close> and \<open>Heatload::step\<close>
  are. Its contract (section 4.2): the block list is divided into
  \<open>comm_size\<close> contiguous ranges, and when the number of blocks is not a multiple of
  \<open>comm_size\<close> the remainder goes to the earliest ranks, one extra block each. The
  result is the pair (offset, number of blocks) that the call sites read as
  \<open>slice.first\<close> and \<open>slice.second\<close>.
\<close>

definition split_vector :: "'a list \<Rightarrow> nat \<Rightarrow> nat \<Rightarrow> nat \<times> nat" where
  "split_vector vec comm_size rank =
     (let nblock = length vec div comm_size;
          extra = length vec mod comm_size
      in (rank * nblock + min rank extra, nblock + (if rank < extra then 1 else 0)))"

text \<open>
  The product of a block's dimensions as both pipelines compute it:
  \<open>int ncount = 1; for (auto &d : block.Count) ncount *= d;\<close> with \<open>size_t\<close> dimensions.
\<close>

definition block_ncount :: "nat list \<Rightarrow> int" where
  "block_ncount dims = fold (\<lambda>d ncount. to_int32 (ncount * int d)) dims 1"

section \<open>The diffusion pipeline (diffusion.cpp)\<close>

definition NCOL :: nat where
  "NCOL = 11"

definition GET :: "'a list \<Rightarrow> nat \<Rightarrow> nat \<Rightarrow> 'a" where
  "GET X i j = X ! (i * NCOL + j)"

datatype StepStatus = OK | NotReady | EndOfStream | OtherError

text \<open>
  One block of the variable \<open>table\<close> in the current step: its \<open>Count\<close> and \<open>BlockID\<close> as
  \<open>BlocksInfo\<close> lists them, and \<open>payload\<close>, the values that \<open>Get\<close> followed by
  \<open>PerformGets\<close> delivers once the block is selected.
\<close>

record block =
  Count :: "nat list"
  BlockID :: nat
  payload :: "real list"

text \<open>What a process does to the outside world, in program order.\<close>

datatype event =
    ReaderBeginStep StepStatus
  | ReaderGet nat
  | ReaderPerformGets
  | ReaderEndStep
  | DupBeginStep
  | DupPut "real list"
  | DupEndStep
  | MpiReduce
  | DeclareIO string
  | DefineVariable string nat
  | OpenWriter string
  | WriterBeginStep
  | WriterPut string "real list"
  | WriterEndStep

text \<open>
  The \<open>Diffusion\<close> object of one process, together with the two pieces of state of the
  process that its member functions touch: \<open>first\<close> is the function-local static of
  \<open>Diffusion::output\<close>, which lives as long as the process and is shared by all objects
  of the process; \<open>trace\<close> collects the events.
\<close>

record Diffusion =
  rank :: nat
  comm_size :: nat
  ntriangle :: int
  istep :: int
  i_dr_avg :: "real list"
  i_dr_squared_average :: "real list"
  i_dE_avg :: "real list"
  i_dE_squared_average :: "real list"
  i_marker_den :: "real list"
  e_dr_avg :: "real list"
  e_dr_squared_average :: "real list"
  e_dE_avg :: "real list"
  e_dE_squared_average :: "real list"
  e_marker_den :: "real list"
  first :: bool
  trace :: "event list"

text \<open>
  \<open>Diffusion::reset\<close>: every sequence is resized to \<open>ntriangle\<close> and filled with zero.
  A negative \<open>ntriangle\<close> converts to a size that \<open>resize\<close> cannot allocate.
\<close>

definition reset :: "Diffusion \<Rightarrow> error + Diffusion" where
  "reset st =
     (if ntriangle st < 0 then Inl LengthError
      else let z = replicate (nat (ntriangle st)) (0::real) in
        Inr (st\<lparr>i_dr_avg := z, i_dr_squared_average := z, i_dE_avg := z,
                 i_dE_squared_average := z, i_marker_den := z,
                 e_dr_avg := z, e_dr_squared_average := z, e_dE_avg := z,
                 e_dE_squared_average := z, e_marker_den := z\<rparr>))"

text \<open>
  The constructor, for a process of rank \<open>rk\<close> in a group of \<open>W\<close>, with \<open>n_t\<close> the
  triangle count that \<open>read_mesh\<close> returns. The static \<open>first\<close> of \<open>Diffusion::output\<close>
  belongs to the process and not to the object: the constructor neither reads nor
  writes it, so the object starts with the value \<open>out_first\<close> that the static has when
  the constructor runs. This value is true as long as no call of \<open>output\<close> has been made
  in the process, and false from the first such call on.
\<close>

definition Diffusion_new :: "bool \<Rightarrow> nat \<Rightarrow> nat \<Rightarrow> int \<Rightarrow> error + Diffusion" where
  "Diffusion_new out_first rk W n_t =
     reset \<lparr>rank = rk, comm_size = W, ntriangle = n_t, istep = 0,
            i_dr_avg = [], i_dr_squared_average = [], i_dE_avg = [],
            i_dE_squared_average = [], i_marker_den = [],
            e_dr_avg = [], e_dr_squared_average = [], e_dE_avg = [],
            e_dE_squared_average = [], e_marker_den = [],
            first = out_first, trace = []\<rparr>"

text \<open>\<open>vec[i] += x\<close>; an index outside the vector is undefined behaviour.\<close>

definition add_at :: "real list \<Rightarrow> int \<Rightarrow> real \<Rightarrow> error + real list" where
  "add_at vec i x =
     (if 0 \<le> i \<and> i < int (length vec) then Inr (vec[nat i := vec ! nat i + x])
      else Inl OutOfBounds)"

text \<open>
  The body of the row loop for row \<open>k\<close> of \<open>table\<close>. The indices \<open>k * NCOL + j\<close> are
  computed in \<open>int\<close>; the largest one of the row is \<open>k * NCOL + 10\<close>.
\<close>

definition add_row :: "real list \<Rightarrow> nat \<Rightarrow> Diffusion \<Rightarrow> error + Diffusion" where
  "add_row table k st =
     (if INT_MAX < int (k * NCOL + 10) then Inl IntOverflow
      else
        and_then (double_to_int (GET table k 0)) (\<lambda>itri.
        and_then (add_at (i_dr_avg st) itri (GET table k 1)) (\<lambda>v1.
        and_then (add_at (i_dr_squared_average st) itri (GET table k 2)) (\<lambda>v2.
        and_then (add_at (i_dE_avg st) itri (GET table k 3)) (\<lambda>v3.
        and_then (add_at (i_dE_squared_average st) itri (GET table k 4)) (\<lambda>v4.
        and_then (add_at (i_marker_den st) itri (GET table k 5)) (\<lambda>v5.
        and_then (add_at (e_dr_avg st) itri (GET table k 6)) (\<lambda>v6.
        and_then (add_at (e_dr_squared_average st) itri (GET table k 7)) (\<lambda>v7.
        and_then (add_at (e_dE_avg st) itri (GET table k 8)) (\<lambda>v8.
        and_then (add_at (e_dE_squared_average st) itri (GET table k 9)) (\<lambda>v9.
        and_then (add_at (e_marker_den st) itri (GET table k 10)) (\<lambda>v10.
          Inr (st\<lparr>i_dr_avg := v1, i_dr_squared_average := v2, i_dE_avg := v3,
                   i_dE_squared_average := v4, i_marker_den := v5,
                   e_dr_avg := v6, e_dr_squared_average := v7, e_dE_avg := v8,
                   e_dE_squared_average := v9, e_marker_den := v10\<rparr>)))))))))))))"

text \<open>
  The body of the block loop: a block whose \<open>ncount\<close> is positive is fetched and copied
  to the duplicate stream, any other block leaves \<open>table\<close> empty; then the rows of
  \<open>table\<close> are added to the bins. \<open>total_nrow\<close> only feeds a log line and is left out.
\<close>

definition read_block :: "block \<Rightarrow> Diffusion \<Rightarrow> error + Diffusion" where
  "read_block b st =
     (let ncount = block_ncount (Count b);
          table = (if 0 < ncount then payload b else []);
          st1 = (if 0 < ncount
                 then st\<lparr>trace := trace st @ [ReaderGet (BlockID b), ReaderPerformGets, DupPut table]\<rparr>
                 else st);
          nrow = to_int32 (int (length table div NCOL))
      in for_each [0..<nat nrow] (add_row table) st1)"

text \<open>
  The first \<open>if (status == OK)\<close> block of \<open>Diffusion::step\<close>: reset, the slice of this
  rank, the block loop, and the end of the step on the reader and on the duplicate
  stream. \<open>block_list[i]\<close> outside the list is undefined behaviour.
\<close>

definition read_step :: "block list \<Rightarrow> Diffusion \<Rightarrow> error + Diffusion" where
  "read_step block_list st =
     and_then (reset st) (\<lambda>st1.
       let slice = split_vector block_list (comm_size st1) (rank st1);
           offset = fst slice;
           nblock = snd slice
       in and_then
            (for_each [offset..<offset + nblock]
               (\<lambda>i s. if i < length block_list then read_block (block_list ! i) s
                      else Inl OutOfBounds) st1)
            (\<lambda>st2. Inr (st2\<lparr>trace := trace st2 @ [ReaderEndStep, DupEndStep]\<rparr>)))"

text \<open>
  \<open>Diffusion::vec_reduce\<close>: \<open>MPI_Reduce\<close> with \<open>MPI_SUM\<close> and root 0 over \<open>vec.size()\<close>
  elements. \<open>others\<close> are the send buffers of ranks \<open>1, 2, ...\<close>; at the root, which
  reduces in place, the result is the element-wise sum of its own buffer and theirs. A
  rank other than the root keeps its buffer. Ranks that pass different counts make the
  call erroneous.
\<close>

definition vec_reduce :: "nat \<Rightarrow> real list list \<Rightarrow> real list \<Rightarrow> error + real list" where
  "vec_reduce rk others vec =
     (if rk = 0 then
        (if list_all (\<lambda>v. length v = length vec) others
         then Inr (fold (\<lambda>v acc. map2 (+) acc v) others vec)
         else Inl MpiError)
      else Inr vec)"

text \<open>
  \<open>Diffusion::output\<close>: on the first call the ten variables are defined and the writer is
  opened; every call writes one step. \<open>ntri\<close> is \<open>ntriangle\<close> converted to
  \<open>long unsigned int\<close>.
\<close>

definition declare_layout :: "nat \<Rightarrow> event list" where
  "declare_layout ntri =
     [DeclareIO ''diffusion'',
      DefineVariable ''i_dr_avg'' ntri,
      DefineVariable ''i_dr_squared_average'' ntri,
      DefineVariable ''i_dE_avg'' ntri,
      DefineVariable ''i_dE_squared_average'' ntri,
      DefineVariable ''i_marker_den'' ntri,
      DefineVariable ''e_dr_avg'' ntri,
      DefineVariable ''e_dr_squared_average'' ntri,
      DefineVariable ''e_dE_avg'' ntri,
      DefineVariable ''e_dE_squared_average'' ntri,
      DefineVariable ''e_marker_den'' ntri,
      OpenWriter ''xgc.diffusion.bp'']"

definition write_step :: "Diffusion \<Rightarrow> event list" where
  "write_step st =
     [WriterBeginStep,
      WriterPut ''i_dr_avg'' (i_dr_avg st),
      WriterPut ''i_dr_squared_average'' (i_dr_squared_average st),
      WriterPut ''i_dE_avg'' (i_dE_avg st),
      WriterPut ''i_dE_squared_average'' (i_dE_squared_average st),
      WriterPut ''i_marker_den'' (i_marker_den st),
      WriterPut ''e_dr_avg'' (e_dr_avg st),
      WriterPut ''e_dr_squared_average'' (e_dr_squared_average st),
      WriterPut ''e_dE_avg'' (e_dE_avg st),
      WriterPut ''e_dE_squared_average'' (e_dE_squared_average st),
      WriterPut ''e_marker_den'' (e_marker_den st),
      WriterEndStep]"

definition "output" :: "Diffusion \<Rightarrow> Diffusion" where
  "output st =
     (let st1 = (if first st
                 then st\<lparr>first := False,
                         trace := trace st @ declare_layout (nat (ntriangle st mod 2 ^ 64))\<rparr>
                 else st)
      in st1\<lparr>trace := trace st1 @ write_step st1\<rparr>)"

text \<open>
  The second \<open>if (status == OK)\<close> block: the ten reductions, the output on rank 0 and
  the increment of \<open>istep\<close>. \<open>others\<close> are the \<open>Diffusion\<close> objects of ranks
  \<open>1, 2, ...\<close> as they enter the reductions.
\<close>

definition reduce_step :: "Diffusion list \<Rightarrow> Diffusion \<Rightarrow> error + Diffusion" where
  "reduce_step others st =
     and_then (vec_reduce (rank st) (map i_dr_avg others) (i_dr_avg st)) (\<lambda>v1.
     and_then (vec_reduce (rank st) (map i_dr_squared_average others) (i_dr_squared_average st)) (\<lambda>v2.
     and_then (vec_reduce (rank st) (map i_dE_avg others) (i_dE_avg st)) (\<lambda>v3.
     and_then (vec_reduce (rank st) (map i_dE_squared_average others) (i_dE_squared_average st)) (\<lambda>v4.
     and_then (vec_reduce (rank st) (map i_marker_den others) (i_marker_den st)) (\<lambda>v5.
     and_then (vec_reduce (rank st) (map e_dr_avg others) (e_dr_avg st)) (\<lambda>v6.
     and_then (vec_reduce (rank st) (map e_dr_squared_average others) (e_dr_squared_average st)) (\<lambda>v7.
     and_then (vec_reduce (rank st) (map e_dE_avg others) (e_dE_avg st)) (\<lambda>v8.
     and_then (vec_reduce (rank st) (map e_dE_squared_average others) (e_dE_squared_average st)) (\<lambda>v9.
     and_then (vec_reduce (rank st) (map e_marker_den others) (e_marker_den st)) (\<lambda>v10.
       let st1 = st\<lparr>i_dr_avg := v1, i_dr_squared_average := v2, i_dE_avg := v3,
                     i_dE_squared_average := v4, i_marker_den := v5,
                     e_dr_avg := v6, e_dr_squared_average := v7, e_dE_avg := v8,
                     e_dE_squared_average := v9, e_marker_den := v10,
                     trace := trace st @ replicate 10 MpiReduce\<rparr>;
           st2 = (if rank st1 = 0 then output st1 else st1)
       in if istep st2 < INT_MAX then Inr (st2\<lparr>istep := istep st2 + 1\<rparr>)
          else Inl IntOverflow))))))))))"

text \<open>
  \<open>Diffusion::step\<close>. \<open>status\<close> is what \<open>reader.BeginStep()\<close> returns and \<open>block_list\<close>
  what \<open>BlocksInfo\<close> lists for the step. \<open>local_phase\<close> is the function up to the end
  of its first \<open>if (status == OK)\<close> block, where no process talks to another. The
  status that \<open>step\<close> returns is its argument.
\<close>

definition local_phase :: "StepStatus \<Rightarrow> block list \<Rightarrow> Diffusion \<Rightarrow> error + Diffusion" where
  "local_phase status block_list st =
     (let st0 = st\<lparr>trace := trace st @ [ReaderBeginStep status, DupBeginStep]\<rparr> in
      if status = OK then read_step block_list st0 else Inr st0)"

definition step :: "StepStatus \<Rightarrow> block list \<Rightarrow> Diffusion list \<Rightarrow> Diffusion \<Rightarrow> error + Diffusion" where
  "step status block_list others st =
     and_then (local_phase status block_list st) (\<lambda>st1.
       if status = OK then reduce_step others st1 else Inr st1)"

text \<open>
  A Ready step of the whole group. \<open>procs\<close> are the objects of ranks \<open>0, 1, ...\<close> in rank
  order; every rank runs its local phase on the same block list, and the coordinator
  (rank 0, the head of the list) reduces with what the other ranks have accumulated.
\<close>

fun collect :: "(error + 'a) list \<Rightarrow> error + 'a list" where
  "collect [] = Inr []"
| "collect (m # ms) = and_then m (\<lambda>x. and_then (collect ms) (\<lambda>xs. Inr (x # xs)))"

definition ready_step :: "block list \<Rightarrow> Diffusion list \<Rightarrow> error + Diffusion" where
  "ready_step block_list procs =
     and_then (collect (map (local_phase OK block_list) (tl procs))) (\<lambda>others.
       step OK block_list others (hd procs))"

text \<open>A run of one process: one call of \<open>step\<close> per element, until the first failure.\<close>

definition run :: "(StepStatus \<times> block list \<times> Diffusion list) list \<Rightarrow> Diffusion \<Rightarrow> error + Diffusion" where
  "run calls st = for_each calls (\<lambda>(status, block_list, others). step status block_list others) st"

text \<open>
  The ten bin sequences of an object, in the order of the columns 1 to 10 of a row.
\<close>

definition bins :: "Diffusion \<Rightarrow> real list list" where
  "bins st =
     [i_dr_avg st, i_dr_squared_average st, i_dE_avg st, i_dE_squared_average st,
      i_marker_den st,
      e_dr_avg st, e_dr_squared_average st, e_dE_avg st, e_dE_squared_average st,
      e_marker_den st]"

subsection \<open>What the bins are meant to hold\<close>

text \<open>
  The reference the spec gives for the bins (sections 4.3 and 8): a table is a sequence
  of rows of \<open>NCOL\<close> fields, the leading field of a row is its entity id, and the bin of
  field \<open>j\<close> holds at \<open>e\<close> the sum of field \<open>j\<close> over all rows of all blocks of the step
  whose entity id is \<open>e\<close>.
\<close>

definition rows_of :: "real list \<Rightarrow> real list list" where
  "rows_of table = map (\<lambda>k. take NCOL (drop (k * NCOL) table)) [0..<length table div NCOL]"

definition entity_id :: "real list \<Rightarrow> int" where
  "entity_id row = trunc (row ! 0)"

definition spec_bin_sum :: "block list \<Rightarrow> nat \<Rightarrow> nat \<Rightarrow> real" where
  "spec_bin_sum block_list e j =
     sum_list (map (\<lambda>row. row ! j)
       (filter (\<lambda>row. entity_id row = int e) (concat (map (\<lambda>b. rows_of (payload b)) block_list))))"

text \<open>
  The input contract of a step: the payload of a block has as many values as its
  \<open>Count\<close> says, a number that fits \<open>int\<close>; and every row names an entity of the mesh.
\<close>

definition wf_block :: "block \<Rightarrow> bool" where
  "wf_block b = (length (payload b) = prod_list (Count b) \<and> int (prod_list (Count b)) \<le> INT_MAX)"

definition ids_in_range :: "int \<Rightarrow> block \<Rightarrow> bool" where
  "ids_in_range n b = list_all (\<lambda>row. 0 \<le> entity_id row \<and> entity_id row < n) (rows_of (payload b))"

text \<open>
  The group before a step: \<open>W\<close> objects in rank order, each with its rank, the size of
  the group and the triangle count \<open>n\<close> of the mesh they all read.
\<close>

definition group_of :: "nat \<Rightarrow> int \<Rightarrow> Diffusion list \<Rightarrow> bool" where
  "group_of W n procs =
     (length procs = W \<and>
      list_all (\<lambda>rk. rank (procs ! rk) = rk \<and> comm_size (procs ! rk) = W \<and> ntriangle (procs ! rk) = n)
        [0..<W])"

section \<open>The heatload pipeline (heatloadcalc.cpp)\<close>

definition NPHASE :: nat where
  "NPHASE = 11"

text \<open>The macro \<open>GET\<close> of heatloadcalc.cpp, which strides by \<open>NPHASE\<close>.\<close>

definition GET_h :: "'a list \<Rightarrow> nat \<Rightarrow> nat \<Rightarrow> 'a" where
  "GET_h X i j = X ! (i * NPHASE + j)"

text \<open>
  \<open>struct Particle\<close>, with the fields that \<open>Heatload::step\<close> assigns. The declaration
  is in a header that is not available.
\<close>

record Particle =
  gid :: int
  flag :: int
  esc_step :: int
  r :: real
  z :: real
  phi :: real
  rho :: real
  w1 :: real
  w2 :: real
  mu :: real
  w0 :: real
  f0 :: real
  psi :: real
  B :: real
  dw :: real

text \<open>
  The five parallel sequences of one species: what the source calls \<open>igid\<close>, \<open>iflag\<close>,
  \<open>istep\<close>, \<open>idw\<close>, \<open>iphase\<close> for the ions and \<open>egid\<close>, ... for the electrons, and
  likewise the gathered \<open>igid_total\<close>, ... of the coordinator.
\<close>

record columns =
  gid_v :: "int list"
  flag_v :: "int list"
  step_v :: "int list"
  dw_v :: "real list"
  phase_v :: "real list"

text \<open>
  One block of a species in the current step: \<open>Count\<close> and \<open>BlockID\<close> of the block of the
  gid variable, and what the five \<open>Get\<close> calls deliver for that \<open>BlockID\<close>.
\<close>

record hblock =
  hCount :: "nat list"
  hBlockID :: nat
  gid_data :: "int list"
  flag_data :: "int list"
  step_data :: "int list"
  dw_data :: "real list"
  phase_data :: "real list"

text \<open>The block loop of one species for the rank \<open>rk\<close> of \<open>W\<close>.\<close>

definition read_species :: "hblock list \<Rightarrow> nat \<Rightarrow> nat \<Rightarrow> error + columns" where
  "read_species block_list W rk =
     (let slice = split_vector block_list W rk;
          offset = fst slice;
          nblock = snd slice
      in for_each [offset..<offset + nblock]
           (\<lambda>i c. if i < length block_list then
                    (let b = block_list ! i in
                     if 0 < block_ncount (hCount b)
                     then Inr (c\<lparr>gid_v := gid_v c @ gid_data b,
                                 flag_v := flag_v c @ flag_data b,
                                 step_v := step_v c @ step_data b,
                                 dw_v := dw_v c @ dw_data b,
                                 phase_v := phase_v c @ phase_data b\<rparr>)
                     else Inr c)
                  else Inl OutOfBounds)
           \<lparr>gid_v = [], flag_v = [], step_v = [], dw_v = [], phase_v = []\<rparr>)"

text \<open>
  \<open>MPI_Allgather\<close> of one \<open>int\<close> per rank: \<open>lens\<close> holds the value each rank sends, in
  rank order, and slot \<open>rk\<close> of the receive buffer gets the value of rank \<open>rk\<close>.
\<close>

definition MPI_Allgather :: "int list \<Rightarrow> int list \<Rightarrow> error + int list" where
  "MPI_Allgather lens recvbuf =
     for_each [0..<length lens]
       (\<lambda>rk buf. if rk < length buf then Inr (buf[rk := lens ! rk]) else Inl OutOfBounds)
       recvbuf"

text \<open>
  The loop \<open>displacement_list[i] = ntotal; ntotal += len_list[i];\<close> starting from
  \<open>ntotal = 0\<close>; it returns the displacements and \<open>ntotal\<close>.
\<close>

definition displacements :: "int list \<Rightarrow> int list \<Rightarrow> error + int list \<times> int" where
  "displacements len_list displacement_list =
     for_each [0..<length len_list]
       (\<lambda>i (displs, ntotal).
          if i < length displs then
            (let n = ntotal + len_list ! i in
             if - (2 ^ 31) \<le> n \<and> n \<le> INT_MAX then Inr (displs[i := ntotal], n)
             else Inl IntOverflow)
          else Inl OutOfBounds)
       (displacement_list, 0)"

text \<open>The loop \<open>len_list[i] = len_list[i] * NPHASE\<close>.\<close>

definition scale_lengths :: "int list \<Rightarrow> error + int list" where
  "scale_lengths len_list =
     for_each [0..<length len_list]
       (\<lambda>i lens. let n = lens ! i * int NPHASE in
          if - (2 ^ 31) \<le> n \<and> n \<le> INT_MAX then Inr (lens[i := n]) else Inl IntOverflow)
       len_list"

text \<open>\<open>std::vector<T> v(n)\<close> for an \<open>int n\<close>: \<open>n\<close> value-initialised elements.\<close>

definition alloc :: "int \<Rightarrow> 'a \<Rightarrow> error + 'a list" where
  "alloc n zero_value = (if n < 0 then Inl LengthError else Inr (replicate (nat n) zero_value))"

text \<open>
  \<open>MPI_Gatherv\<close> with root 0, seen from rank \<open>rk\<close>. \<open>sends\<close> are the send buffers of the
  ranks in rank order, each sent whole. At the root the elements of rank \<open>s\<close> are stored
  from position \<open>displs[s]\<close> of the receive buffer; the count a rank sends must be the
  count the root expects from it, and the data must fit the buffer. On any other rank the
  receive buffer is not written.
\<close>

definition MPI_Gatherv :: "nat \<Rightarrow> 'a list list \<Rightarrow> 'a list \<Rightarrow> int list \<Rightarrow> int list \<Rightarrow> error + 'a list" where
  "MPI_Gatherv rk sends recvbuf recvcounts displs =
     (if rk = 0 then
        for_each [0..<length sends]
          (\<lambda>s buf.
             if s < length recvcounts \<and> s < length displs
                \<and> recvcounts ! s = int (length (sends ! s))
                \<and> 0 \<le> displs ! s
                \<and> displs ! s + recvcounts ! s \<le> int (length buf)
             then Inr (take (nat (displs ! s)) buf @ sends ! s
                       @ drop (nat (displs ! s) + length (sends ! s)) buf)
             else Inl MpiError)
          recvbuf
      else Inr recvbuf)"

text \<open>
  The merge of one species to rank 0. \<open>locals\<close> holds the local sequences of every rank,
  in rank order. The length and displacement buffers come in as the previous user left
  them and go out as this merge leaves them. The third component of the result lists
  the (counts, displacements) pair that each of the five \<open>MPI_Gatherv\<close> calls was given.
\<close>

definition gather_species ::
  "nat \<Rightarrow> columns list \<Rightarrow> int list \<times> int list
     \<Rightarrow> error + columns \<times> (int list \<times> int list) \<times> (int list \<times> int list) list" where
  "gather_species rk locals bufs =
     and_then (MPI_Allgather (map (\<lambda>c. to_int32 (int (length (gid_v c)))) locals) (fst bufs))
       (\<lambda>len_list.
     and_then (displacements len_list (snd bufs)) (\<lambda>(displacement_list, ntotal).
     and_then (alloc ntotal 0) (\<lambda>gid_total0.
     and_then (alloc ntotal 0) (\<lambda>flag_total0.
     and_then (alloc ntotal 0) (\<lambda>step_total0.
     and_then (alloc ntotal 0) (\<lambda>dw_total0.
     and_then (if ntotal * int NPHASE \<le> INT_MAX then alloc (ntotal * int NPHASE) 0
               else Inl IntOverflow) (\<lambda>phase_total0.
     and_then (MPI_Gatherv rk (map gid_v locals) gid_total0 len_list displacement_list)
       (\<lambda>gid_total.
     and_then (MPI_Gatherv rk (map flag_v locals) flag_total0 len_list displacement_list)
       (\<lambda>flag_total.
     and_then (MPI_Gatherv rk (map step_v locals) step_total0 len_list displacement_list)
       (\<lambda>step_total.
     and_then (MPI_Gatherv rk (map dw_v locals) dw_total0 len_list displacement_list)
       (\<lambda>dw_total.
     and_then (scale_lengths len_list) (\<lambda>len_list'.
     and_then (displacements len_list' displacement_list) (\<lambda>(displacement_list', ntotal').
     and_then (MPI_Gatherv rk (map phase_v locals) phase_total0 len_list' displacement_list')
       (\<lambda>phase_total.
       Inr (\<lparr>gid_v = gid_total, flag_v = flag_total, step_v = step_total,
              dw_v = dw_total, phase_v = phase_total\<rparr>,
            (len_list', displacement_list'),
            [(len_list, displacement_list), (len_list, displacement_list),
             (len_list, displacement_list), (len_list, displacement_list),
             (len_list', displacement_list')])))))))))))))))"

text \<open>
  "Merge to rank 0" of \<open>Heatload::step\<close>: the two buffers are created once, with
  \<open>comm_size\<close> elements, used for the ions and then for the electrons.
\<close>

definition consolidate ::
  "nat \<Rightarrow> nat \<Rightarrow> columns list \<Rightarrow> columns list
     \<Rightarrow> error + columns \<times> columns \<times> (int list \<times> int list) list" where
  "consolidate rk W igroup egroup =
     and_then (gather_species rk igroup (replicate W 0, replicate W 0))
       (\<lambda>(itotal, bufs, icalls).
     and_then (gather_species rk egroup bufs) (\<lambda>(etotal, bufs', ecalls).
       Inr (itotal, etotal, icalls @ ecalls)))"

text \<open>
  The record that the four reconstruction loops build for index \<open>k\<close>: \<open>record_at\<close> is
  what the assignments store, and \<open>make_particle\<close> adds that reading any of the
  sequences beyond its end is undefined behaviour. The index \<open>k * NPHASE + j\<close> is
  computed in \<open>int\<close>.
\<close>

definition record_at :: "columns \<Rightarrow> nat \<Rightarrow> Particle" where
  "record_at c k =
     \<lparr>gid = gid_v c ! k, flag = flag_v c ! k, esc_step = step_v c ! k,
      r = GET_h (phase_v c) k 0, z = GET_h (phase_v c) k 1,
      phi = GET_h (phase_v c) k 2, rho = GET_h (phase_v c) k 3,
      w1 = GET_h (phase_v c) k 4, w2 = GET_h (phase_v c) k 5,
      mu = GET_h (phase_v c) k 6, w0 = GET_h (phase_v c) k 7,
      f0 = GET_h (phase_v c) k 8, psi = GET_h (phase_v c) k 9,
      B = GET_h (phase_v c) k 10, dw = dw_v c ! k\<rparr>"

definition make_particle :: "columns \<Rightarrow> nat \<Rightarrow> error + Particle" where
  "make_particle c k =
     (if k < length (gid_v c) \<and> k < length (flag_v c) \<and> k < length (step_v c)
         \<and> k < length (dw_v c) \<and> k * NPHASE + 10 < length (phase_v c)
         \<and> int (k * NPHASE + 10) \<le> INT_MAX
      then Inr (record_at c k)
      else Inl OutOfBounds)"

text \<open>
  Modelled from the spec: \<open>add\<close> and the type \<open>t_ParticlesList\<close> are declared in a header
  that is not available. Section 4.5: the pipeline only proposes candidate entries to the
  escaped set, and what happens to two candidates of one global id is the
  collaborator's policy. The set is therefore the sequence of the candidates proposed,
  in the order of the calls.
\<close>

definition add :: "Particle list \<Rightarrow> Particle \<Rightarrow> Particle list" where
  "add esc ptl = esc @ [ptl]"

text \<open>
  The loop of rank 0 over the gathered sequences, and the loop of every rank over its
  local sequences. \<open>escaped\<close> stands for \<open>Flags(flag).escaped\<close>: the class \<open>Flags\<close> is
  declared in a header that is not available, so the decoding is a parameter.
\<close>

definition escaped_loop :: "(int \<Rightarrow> bool) \<Rightarrow> columns \<Rightarrow> Particle list \<Rightarrow> error + Particle list" where
  "escaped_loop escaped tot esc =
     for_each [0..<length (gid_v tot)]
       (\<lambda>k s. and_then (make_particle tot k) (\<lambda>ptl.
          Inr (if escaped (flag ptl) then add s ptl else s)))
       esc"

definition confined_loop :: "(int \<Rightarrow> bool) \<Rightarrow> columns \<Rightarrow> Particle list \<Rightarrow> error + Particle list" where
  "confined_loop escaped c dv =
     for_each [0..<length (gid_v c)]
       (\<lambda>i d. and_then (make_particle c i) (\<lambda>ptl.
          Inr (if \<not> escaped (flag ptl) then d @ [ptl] else d)))
       dv"

text \<open>
  The \<open>Heatload\<close> object of one process. \<open>rank\<close>, \<open>comm_size\<close> and \<open>istep\<close> carry the
  suffix \<open>_h\<close> to keep them apart from the fields of \<open>Diffusion\<close>.
\<close>

record Heatload =
  rank_h :: nat
  comm_size_h :: nat
  istep_h :: int
  iesc_db :: "Particle list list"
  eesc_db :: "Particle list list"

definition Heatload_new :: "nat \<Rightarrow> nat \<Rightarrow> Heatload" where
  "Heatload_new rk W = \<lparr>rank_h = rk, comm_size_h = W, istep_h = 0, iesc_db = [], eesc_db = []\<rparr>"

text \<open>
  What one call of \<open>Heatload::step\<close> classifies: the escaped candidates of both species
  (rank 0 only, from the gathered sequences) and the confined lists of both species
  (every rank, from its local sequences). \<open>igroup\<close> and \<open>egroup\<close> hold the local sequences
  of the whole group in rank order, as the collectives see them; the slot of the rank
  itself is what it has just read.
\<close>

definition classify ::
  "(int \<Rightarrow> bool) \<Rightarrow> nat \<Rightarrow> nat \<Rightarrow> columns list \<Rightarrow> columns list
     \<Rightarrow> error + Particle list \<times> Particle list \<times> Particle list \<times> Particle list" where
  "classify escaped rk W igroup egroup =
     and_then (consolidate rk W igroup egroup) (\<lambda>(itotal, etotal, calls).
     and_then (if rk = 0 then escaped_loop escaped itotal [] else Inr []) (\<lambda>iesc.
     and_then (if rk = 0 then escaped_loop escaped etotal [] else Inr []) (\<lambda>eesc.
     and_then (if rk < length igroup then confined_loop escaped (igroup ! rk) []
               else Inl OutOfBounds) (\<lambda>idiv.
     and_then (if rk < length egroup then confined_loop escaped (egroup ! rk) []
               else Inl OutOfBounds) (\<lambda>ediv.
       Inr (iesc, eesc, idiv, ediv))))))"

text \<open>
  \<open>Heatload::step\<close>. \<open>ptlmap_sync\<close> is the external synchronisation of an escaped set and
  a parameter. \<open>heatload_calc\<close> and \<open>output\<close> are the external heat-load physics; they
  take the lists built here and do not reach \<open>istep\<close>, and are left out.
\<close>

definition step_h ::
  "(int \<Rightarrow> bool) \<Rightarrow> (Particle list \<Rightarrow> Particle list) \<Rightarrow> StepStatus
     \<Rightarrow> hblock list \<Rightarrow> hblock list \<Rightarrow> columns list \<Rightarrow> columns list
     \<Rightarrow> Heatload \<Rightarrow> error + Heatload" where
  "step_h escaped ptlmap_sync status block_list_igid block_list_egid igroup egroup h =
     (if status = OK then
        and_then (read_species block_list_igid (comm_size_h h) (rank_h h)) (\<lambda>ions.
        and_then (read_species block_list_egid (comm_size_h h) (rank_h h)) (\<lambda>elecs.
        and_then (classify escaped (rank_h h) (comm_size_h h)
                    (igroup[rank_h h := ions]) (egroup[rank_h h := elecs]))
          (\<lambda>(iesc, eesc, idiv, ediv).
          let h1 = h\<lparr>iesc_db := iesc_db h @ [ptlmap_sync iesc],
                      eesc_db := eesc_db h @ [ptlmap_sync eesc]\<rparr>
          in if istep_h h1 < INT_MAX then Inr (h1\<lparr>istep_h := istep_h h1 + 1\<rparr>)
             else Inl IntOverflow)))
      else Inr h)"

definition run_h ::
  "(int \<Rightarrow> bool) \<Rightarrow> (Particle list \<Rightarrow> Particle list)
     \<Rightarrow> (StepStatus \<times> hblock list \<times> hblock list \<times> columns list \<times> columns list) list
     \<Rightarrow> Heatload \<Rightarrow> error + Heatload" where
  "run_h escaped ptlmap_sync calls h =
     for_each calls
       (\<lambda>(status, bi, be, igroup, egroup). step_h escaped ptlmap_sync status bi be igroup egroup)
       h"

subsection \<open>What the merge is meant to deliver\<close>

text \<open>
  The reference of the spec (sections 3, 4.5, 4.6): the five sequences of a species are
  index-aligned, with \<open>NPHASE\<close> phase values per record; the records of aligned
  sequences are read off index by index; the displacement table is the prefix sum of
  the lengths.
\<close>

definition aligned :: "columns \<Rightarrow> bool" where
  "aligned c =
     (length (flag_v c) = length (gid_v c) \<and> length (step_v c) = length (gid_v c)
      \<and> length (dw_v c) = length (gid_v c)
      \<and> length (phase_v c) = length (gid_v c) * NPHASE)"

definition records :: "columns \<Rightarrow> Particle list" where
  "records c = map (record_at c) [0..<length (gid_v c)]"

text \<open>
  The record that a rank holds at index \<open>i\<close> of its local sequences, as section 3 of the
  spec describes it: the global id, the flag, the step of the escape and the energy
  loss are the entries \<open>i\<close> of the four scalar sequences, and the phase vector is the
  \<open>i\<close>-th group of eleven consecutive values of the phase sequence, whose components
  are, in this order, \<open>r\<close>, \<open>z\<close>, \<open>phi\<close>, \<open>rho\<close>, \<open>w1\<close>, \<open>w2\<close>, \<open>mu\<close>, \<open>w0\<close>, \<open>f0\<close>, \<open>psi\<close>
  and \<open>B\<close>. \<open>spec_records\<close> lists the records of a rank by index.
\<close>

definition spec_record :: "columns \<Rightarrow> nat \<Rightarrow> Particle" where
  "spec_record c i =
     (let ph = take 11 (drop (11 * i) (phase_v c)) in
      \<lparr>gid = gid_v c ! i, flag = flag_v c ! i, esc_step = step_v c ! i,
       r = ph ! 0, z = ph ! 1, phi = ph ! 2, rho = ph ! 3, w1 = ph ! 4, w2 = ph ! 5,
       mu = ph ! 6, w0 = ph ! 7, f0 = ph ! 8, psi = ph ! 9, B = ph ! 10,
       dw = dw_v c ! i\<rparr>)"

definition spec_records :: "columns \<Rightarrow> Particle list" where
  "spec_records c = map (spec_record c) [0..<length (gid_v c)]"

definition prefix_sums :: "int list \<Rightarrow> int list" where
  "prefix_sums xs = map (\<lambda>i. sum_list (take i xs)) [0..<length xs]"

definition record_counts :: "columns list \<Rightarrow> int list" where
  "record_counts locals = map (\<lambda>c. int (length (gid_v c))) locals"

section \<open>Notions used to state and prove the properties\<close>

subsection \<open>Projections of a trace\<close>

text \<open>
  The events on the persisted output of rank 0, the events on the duplicate stream,
  and the \<open>Put\<close> events on the duplicate stream.
\<close>

fun sink_event :: "event \<Rightarrow> bool" where
  "sink_event (DeclareIO name) = True"
| "sink_event (DefineVariable name n) = True"
| "sink_event (OpenWriter name) = True"
| "sink_event WriterBeginStep = True"
| "sink_event (WriterPut name v) = True"
| "sink_event WriterEndStep = True"
| "sink_event ev = False"

fun dup_event :: "event \<Rightarrow> bool" where
  "dup_event DupBeginStep = True"
| "dup_event (DupPut v) = True"
| "dup_event DupEndStep = True"
| "dup_event ev = False"

fun is_DupPut :: "event \<Rightarrow> bool" where
  "is_DupPut (DupPut v) = True"
| "is_DupPut ev = False"

text \<open>The events of the block loop for one block.\<close>

definition block_events :: "block \<Rightarrow> event list" where
  "block_events b =
     (if 0 < block_ncount (Count b)
      then [ReaderGet (BlockID b), ReaderPerformGets, DupPut (payload b)] else [])"

subsection \<open>The persisted output\<close>

text \<open>
  The names of the ten bin sequences, in the order of \<open>bins\<close>; the events that declare
  the layout of the persisted output for \<open>n\<close> entities, one variable of length \<open>n\<close> for
  each name, and open the writer; and the events of one persisted step that holds the
  ten sequences \<open>bs\<close>.
\<close>

definition bin_names :: "string list" where
  "bin_names =
     [''i_dr_avg'', ''i_dr_squared_average'', ''i_dE_avg'', ''i_dE_squared_average'',
      ''i_marker_den'',
      ''e_dr_avg'', ''e_dr_squared_average'', ''e_dE_avg'', ''e_dE_squared_average'',
      ''e_marker_den'']"

definition layout_events :: "nat \<Rightarrow> event list" where
  "layout_events n =
     DeclareIO ''diffusion'' # map (\<lambda>name. DefineVariable name n) bin_names
       @ [OpenWriter ''xgc.diffusion.bp'']"

definition step_events :: "real list list \<Rightarrow> event list" where
  "step_events bs = WriterBeginStep # map2 WriterPut bin_names bs @ [WriterEndStep]"

subsection \<open>Frames\<close>

text \<open>
  \<open>same_env\<close>: two objects agree on everything but the bins and the trace.
  \<open>same_bins\<close>: two objects agree on their place in the group, the mesh and the bins.
\<close>

definition same_env :: "Diffusion \<Rightarrow> Diffusion \<Rightarrow> bool" where
  "same_env st st' =
     (rank st' = rank st \<and> comm_size st' = comm_size st \<and> ntriangle st' = ntriangle st
      \<and> istep st' = istep st \<and> first st' = first st)"

definition same_bins :: "Diffusion \<Rightarrow> Diffusion \<Rightarrow> bool" where
  "same_bins a b =
     (rank a = rank b \<and> comm_size a = comm_size b \<and> ntriangle a = ntriangle b
      \<and> bins a = bins b)"

subsection \<open>Sums over rows, blocks and slices\<close>

text \<open>
  \<open>cols\<close> are the columns of a row that go to the bins, in the order of \<open>bins\<close>.
  \<open>row_sum\<close> adds field \<open>j\<close> over the rows \<open>ks\<close> of a table that name entity \<open>e\<close>,
  \<open>block_sum\<close> does so for all rows of a block, \<open>slice_sum\<close> for the blocks of the slice
  of a rank, whose indices are \<open>slice_of\<close>. \<open>vsum\<close> is the reduction of bin \<open>j\<close> at the
  root.
\<close>

definition cols :: "nat list" where
  "cols = [1, 2, 3, 4, 5, 6, 7, 8, 9, 10]"

definition row_sum :: "real list \<Rightarrow> nat list \<Rightarrow> nat \<Rightarrow> nat \<Rightarrow> real" where
  "row_sum table ks e j =
     sum_list (map (\<lambda>k. GET table k j) (filter (\<lambda>k. trunc (GET table k 0) = int e) ks))"

definition block_sum :: "block \<Rightarrow> nat \<Rightarrow> nat \<Rightarrow> real" where
  "block_sum b e j = row_sum (payload b) [0..<length (payload b) div NCOL] e j"

definition slice_of :: "'a list \<Rightarrow> nat \<Rightarrow> nat \<Rightarrow> nat list" where
  "slice_of vec W rk =
     [fst (split_vector vec W rk)..<fst (split_vector vec W rk) + snd (split_vector vec W rk)]"

definition slice_sum :: "block list \<Rightarrow> nat \<Rightarrow> nat \<Rightarrow> nat \<Rightarrow> nat \<Rightarrow> real" where
  "slice_sum bl W rk j e = sum_list (map (\<lambda>i. block_sum (bl ! i) e (Suc j)) (slice_of bl W rk))"

definition vsum :: "Diffusion list \<Rightarrow> nat \<Rightarrow> real list \<Rightarrow> real list" where
  "vsum others j vec = fold (\<lambda>v acc. map2 (+) acc v) (map (\<lambda>p. bins p ! j) others) vec"

subsection \<open>Sequences of a group\<close>

text \<open>
  The sequences of two ranks one after the other, and of a whole group in rank order;
  the zero-filled sequences that a rank other than the root allocates; the number of
  records of a group; the record counts times \<open>NPHASE\<close>; and the tables that the five
  gathers of one species are expected to get.
\<close>

definition append_columns :: "columns \<Rightarrow> columns \<Rightarrow> columns" where
  "append_columns c d =
     \<lparr>gid_v = gid_v c @ gid_v d, flag_v = flag_v c @ flag_v d,
      step_v = step_v c @ step_v d, dw_v = dw_v c @ dw_v d,
      phase_v = phase_v c @ phase_v d\<rparr>"

definition concat_columns :: "columns list \<Rightarrow> columns" where
  "concat_columns locals =
     \<lparr>gid_v = concat (map gid_v locals), flag_v = concat (map flag_v locals),
      step_v = concat (map step_v locals), dw_v = concat (map dw_v locals),
      phase_v = concat (map phase_v locals)\<rparr>"

definition zero_columns :: "nat \<Rightarrow> columns" where
  "zero_columns n =
     \<lparr>gid_v = replicate n 0, flag_v = replicate n 0, step_v = replicate n 0,
      dw_v = replicate n 0, phase_v = replicate (n * NPHASE) 0\<rparr>"

definition total_records :: "columns list \<Rightarrow> nat" where
  "total_records locals = sum_list (map (\<lambda>c. length (gid_v c)) locals)"

definition scaled_counts :: "columns list \<Rightarrow> int list" where
  "scaled_counts locals = map (\<lambda>x. x * int NPHASE) (record_counts locals)"

definition gather_calls :: "columns list \<Rightarrow> (int list \<times> int list) list" where
  "gather_calls locals =
     [(record_counts locals, prefix_sums (record_counts locals)),
      (record_counts locals, prefix_sums (record_counts locals)),
      (record_counts locals, prefix_sums (record_counts locals)),
      (record_counts locals, prefix_sums (record_counts locals)),
      (scaled_counts locals, prefix_sums (scaled_counts locals))]"

subsection \<open>Concrete inputs\<close>

text \<open>
  A step of the diffusion pipeline with two blocks: one row for entity 0, then a row for
  entity 1 and a second row for entity 0. The objects start with bins that are not zero.
\<close>

definition ex_b0 :: block where
  "ex_b0 = \<lparr>Count = [1, 11], BlockID = 0, payload = [0, 1, 2, 3, 4, 5, 6, 7, 8, 9, 10]\<rparr>"

definition ex_b1 :: block where
  "ex_b1 = \<lparr>Count = [2, 11], BlockID = 1,
             payload = [1, 1, 1, 1, 1, 1, 1, 1, 1, 1, 1,
                        0, 10, 20, 30, 40, 50, 60, 70, 80, 90, 100]\<rparr>"

definition ex_st :: "nat \<Rightarrow> nat \<Rightarrow> Diffusion" where
  "ex_st rk W = \<lparr>rank = rk, comm_size = W, ntriangle = 2, istep = 0,
        i_dr_avg = [7, 7], i_dr_squared_average = [7, 7], i_dE_avg = [7, 7],
        i_dE_squared_average = [7, 7], i_marker_den = [7, 7],
        e_dr_avg = [7, 7], e_dr_squared_average = [7, 7], e_dE_avg = [7, 7],
        e_dE_squared_average = [7, 7], e_marker_den = [7, 7],
        first = True, trace = []\<rparr>"

definition ex_solo :: Diffusion where
  "ex_solo = ex_st 0 1"

definition ex_calls :: "(StepStatus \<times> block list \<times> Diffusion list) list" where
  "ex_calls = [(OK, [ex_b0, ex_b1], []), (NotReady, [], []), (OK, [ex_b0, ex_b1], [])]"

text \<open>
  A group of three ranks of the heatload pipeline holding 0, 1 and 2 ions and 2, 0 and 1
  electrons; a decoding of the escape bit; and a run of one rank over three calls.
\<close>

definition ex_c0 :: columns where
  "ex_c0 = \<lparr>gid_v = [], flag_v = [], step_v = [], dw_v = [], phase_v = []\<rparr>"

definition ex_c1 :: columns where
  "ex_c1 = \<lparr>gid_v = [101], flag_v = [2], step_v = [7], dw_v = [1],
            phase_v = [1, 2, 3, 4, 5, 6, 7, 8, 9, 10, 11]\<rparr>"

definition ex_c2 :: columns where
  "ex_c2 = \<lparr>gid_v = [201, 202], flag_v = [0, 2], step_v = [8, 9], dw_v = [2, 3],
            phase_v = [21, 22, 23, 24, 25, 26, 27, 28, 29, 30, 31,
                       41, 42, 43, 44, 45, 46, 47, 48, 49, 50, 51]\<rparr>"

definition ex_igroup :: "columns list" where
  "ex_igroup = [ex_c0, ex_c1, ex_c2]"

definition ex_egroup :: "columns list" where
  "ex_egroup = [ex_c2, ex_c0, ex_c1]"

definition ex_escaped :: "int \<Rightarrow> bool" where
  "ex_escaped f = (f \<noteq> 0)"

definition ex_hb :: hblock where
  "ex_hb = \<lparr>hCount = [2], hBlockID = 0, gid_data = [201, 202], flag_data = [0, 2],
            step_data = [8, 9], dw_data = [2, 3],
            phase_data = [21, 22, 23, 24, 25, 26, 27, 28, 29, 30, 31,
                          41, 42, 43, 44, 45, 46, 47, 48, 49, 50, 51]\<rparr>"

definition ex_hcalls ::
  "(StepStatus \<times> hblock list \<times> hblock list \<times> columns list \<times> columns list) list" where
  "ex_hcalls = [(NotReady, [], [], [], []), (OK, [ex_hb], [ex_hb], [ex_c0], [ex_c0]),
                (EndOfStream, [], [], [], [])]"

section \<open>Properties of the block partitioning\<close>

lemma split_vector_fst:
  "fst (split_vector vec W rk) = rk * (length vec div W) + min rk (length vec mod W)"
  by (simp add: split_vector_def Let_def)

lemma split_vector_snd:
  "snd (split_vector vec W rk) = length vec div W + (if rk < length vec mod W then 1 else 0)"
  by (simp add: split_vector_def Let_def)

lemma split_vector_next:
  "fst (split_vector vec W (Suc rk)) = fst (split_vector vec W rk) + snd (split_vector vec W rk)"
  by (simp add: split_vector_fst split_vector_snd min_def)

lemma split_vector_first: "fst (split_vector vec W 0) = 0"
  by (simp add: split_vector_fst)

lemma split_vector_last:
  assumes "1 \<le> W"
  shows "fst (split_vector vec W W) = length vec"
proof -
  have "length vec mod W < W" using assms by simp
  then have "min W (length vec mod W) = length vec mod W" by simp
  then show ?thesis by (simp add: split_vector_fst)
qed

lemma split_vector_mono:
  "rk \<le> s \<Longrightarrow> fst (split_vector vec W rk) \<le> fst (split_vector vec W s)"
  unfolding split_vector_fst by (intro add_mono mult_le_mono1 min.mono) simp_all

lemma split_vector_union_upto:
  "(\<Union>rk\<in>{0..<n}. {fst (split_vector vec W rk)..<fst (split_vector vec W rk) + snd (split_vector vec W rk)})
     = {0..<fst (split_vector vec W n)}"
proof (induction n)
  case 0
  then show ?case by (simp add: split_vector_first)
next
  case (Suc n)
  have le: "fst (split_vector vec W n) \<le> fst (split_vector vec W (Suc n))"
    by (rule split_vector_mono) simp
  have "{0..<Suc n} = insert n {0..<n}" by auto
  then show ?case
    using Suc le by (auto simp: split_vector_next [symmetric])
qed

lemma split_vector_disjoint:
  assumes "rk < s"
  shows "{fst (split_vector vec W rk)..<fst (split_vector vec W rk) + snd (split_vector vec W rk)}
       \<inter> {fst (split_vector vec W s)..<fst (split_vector vec W s) + snd (split_vector vec W s)} = {}"
proof -
  have "fst (split_vector vec W (Suc rk)) \<le> fst (split_vector vec W s)"
    by (rule split_vector_mono) (use assms in simp)
  then show ?thesis by (auto simp: split_vector_next)
qed

text \<open>
  Claim C2. For every block count and every worker count \<open>W \<ge> 1\<close>, the ranges that
  \<open>split_vector\<close> returns for the ranks \<open>0, ..., W - 1\<close> start at 0, each range starts
  where the previous one ends, the last one ends at the block count, their union is
  \<open>[0, B)\<close> and no two of them overlap; two range lengths differ by at most one, the
  ranks below \<open>B mod W\<close> being the ones with the extra block; and when there are fewer
  blocks than workers the ranks from \<open>B\<close> on get an empty range. The function is
  total, so no rank gets an error.
\<close>

theorem split_vector_partition:
  assumes "1 \<le> W"
  shows "fst (split_vector vec W 0) = 0
       \<and> (\<forall>rk. fst (split_vector vec W (Suc rk))
               = fst (split_vector vec W rk) + snd (split_vector vec W rk))
       \<and> fst (split_vector vec W W) = length vec
       \<and> (\<Union>rk\<in>{0..<W}. {fst (split_vector vec W rk)..<
               fst (split_vector vec W rk) + snd (split_vector vec W rk)}) = {0..<length vec}
       \<and> (\<forall>rk s. rk < s \<and> s < W \<longrightarrow>
             {fst (split_vector vec W rk)..<fst (split_vector vec W rk) + snd (split_vector vec W rk)}
           \<inter> {fst (split_vector vec W s)..<fst (split_vector vec W s) + snd (split_vector vec W s)} = {})
       \<and> (\<forall>rk s. rk < W \<and> s < W \<longrightarrow> snd (split_vector vec W rk) \<le> snd (split_vector vec W s) + 1)
       \<and> (\<forall>rk. rk < W \<longrightarrow> snd (split_vector vec W rk)
               = length vec div W + (if rk < length vec mod W then 1 else 0))
       \<and> (length vec < W \<longrightarrow> (\<forall>rk. length vec \<le> rk \<and> rk < W \<longrightarrow> snd (split_vector vec W rk) = 0))"
proof (intro conjI allI impI)
  show "fst (split_vector vec W 0) = 0" by (rule split_vector_first)
  show "fst (split_vector vec W (Suc rk)) = fst (split_vector vec W rk) + snd (split_vector vec W rk)" for rk
    by (rule split_vector_next)
  show "fst (split_vector vec W W) = length vec" by (rule split_vector_last [OF assms])
  show "(\<Union>rk\<in>{0..<W}. {fst (split_vector vec W rk)..<
               fst (split_vector vec W rk) + snd (split_vector vec W rk)}) = {0..<length vec}"
    by (simp only: split_vector_union_upto split_vector_last [OF assms])
  show "{fst (split_vector vec W rk)..<fst (split_vector vec W rk) + snd (split_vector vec W rk)}
           \<inter> {fst (split_vector vec W s)..<fst (split_vector vec W s) + snd (split_vector vec W s)} = {}"
    if "rk < s \<and> s < W" for rk s
    using that by (intro split_vector_disjoint) simp
  show "snd (split_vector vec W rk) \<le> snd (split_vector vec W s) + 1" for rk s
    by (simp add: split_vector_snd)
  show "snd (split_vector vec W rk) = length vec div W + (if rk < length vec mod W then 1 else 0)" for rk
    by (rule split_vector_snd)
  show "snd (split_vector vec W rk) = 0" if "length vec < W" "length vec \<le> rk \<and> rk < W" for rk
    using that by (simp add: split_vector_snd)
qed

theorem split_vector_partition_witness:
  "fst (split_vector [0, 1, 2, 3, 4, 5, 6, 7, 8, 9 :: nat] 3 0) = 0
   \<and> snd (split_vector [0, 1, 2, 3, 4, 5, 6, 7, 8, 9 :: nat] 3 0) = 4
   \<and> snd (split_vector [0, 1, 2, 3, 4, 5, 6, 7, 8, 9 :: nat] 3 1) = 3
   \<and> snd (split_vector [0, 1, 2, 3, 4, 5, 6, 7, 8, 9 :: nat] 3 2) = 3
   \<and> fst (split_vector [0, 1, 2, 3, 4, 5, 6, 7, 8, 9 :: nat] 3 3) = 10
   \<and> snd (split_vector [0 :: nat] 3 2) = 0"
  using split_vector_partition [of 3 "[0, 1, 2, 3, 4, 5, 6, 7, 8, 9 :: nat]"]
    split_vector_partition [of 3 "[0 :: nat]"]
  by (simp add: split_vector_def)

section \<open>Sequencing and loops\<close>

lemma and_then_Inr [simp]: "and_then (Inr x) f = f x"
  by (simp add: and_then_def)

lemma and_then_Inl [simp]: "and_then (Inl e) f = Inl e"
  by (simp add: and_then_def)

lemma and_then_eq_Inr: "and_then m f = Inr y \<longleftrightarrow> (\<exists>x. m = Inr x \<and> f x = Inr y)"
  by (cases m) simp_all

lemma for_each_append:
  "for_each (xs @ ys) body s = and_then (for_each xs body s) (for_each ys body)"
  by (induction xs arbitrary: s) (simp_all add: and_then_def split: sum.splits)

text \<open>An invariant of the loop body holds after a loop that does not fail.\<close>

lemma for_each_invariant:
  assumes "for_each xs body s = Inr s'"
    and "P s"
    and "\<And>x a b. x \<in> set xs \<Longrightarrow> P a \<Longrightarrow> body x a = Inr b \<Longrightarrow> P b"
  shows "P s'"
  using assms
proof (induction xs arbitrary: s)
  case Nil
  then show ?case by simp
next
  case (Cons x xs)
  from Cons.prems(1) obtain a where a: "body x s = Inr a" and rest: "for_each xs body a = Inr s'"
    by (auto simp: and_then_eq_Inr)
  have "P a" using Cons.prems(3) [of x s a] Cons.prems(2) a by simp
  show ?case
  proof (rule Cons.IH [OF rest \<open>P a\<close>])
    fix y c d assume "y \<in> set xs" "P c" "body y c = Inr d"
    then show "P d" using Cons.prems(3) [of y c d] by simp
  qed
qed

section \<open>The diffusion pipeline: accumulation\<close>

subsection \<open>Rows\<close>

lemma same_env_refl [simp]: "same_env st st"
  by (simp add: same_env_def)

lemma same_env_trans: "same_env a b \<Longrightarrow> same_env b c \<Longrightarrow> same_env a c"
  by (simp add: same_env_def)

lemma length_bins [simp]: "length (bins st) = 10"
  by (simp add: bins_def)

lemma cols_nth: "j < 10 \<Longrightarrow> cols ! j = Suc j"
proof -
  assume "j < 10"
  then have "j = 0 \<or> j = 1 \<or> j = 2 \<or> j = 3 \<or> j = 4 \<or> j = 5 \<or> j = 6 \<or> j = 7 \<or> j = 8 \<or> j = 9"
    by arith
  then show ?thesis by (auto simp: cols_def)
qed

lemma length_cols [simp]: "length cols = 10"
  by (simp add: cols_def)

text \<open>What a row does to an object whose bins have \<open>n\<close> entries, when its id is below \<open>n\<close>.\<close>

lemma add_row_bins:
  assumes len: "\<forall>v\<in>set (bins st). length v = n"
    and idx: "int (k * NCOL + 10) \<le> INT_MAX"
    and lo: "0 \<le> trunc (GET table k 0)" and hi: "trunc (GET table k 0) < int n"
    and small: "int n \<le> INT_MAX + 1"
  shows "\<exists>st'. add_row table k st = Inr st' \<and> same_env st st' \<and> trace st' = trace st
           \<and> bins st' = map2 (\<lambda>j v. v[nat (trunc (GET table k 0)) :=
                                     v ! nat (trunc (GET table k 0)) + GET table k j])
                          cols (bins st)"
proof -
  have conv: "double_to_int (GET table k 0) = Inr (trunc (GET table k 0))"
    using lo hi small by (simp add: double_to_int_def INT_MAX_def)
  have at: "add_at v (trunc (GET table k 0)) x
              = Inr (v[nat (trunc (GET table k 0)) := v ! nat (trunc (GET table k 0)) + x])"
    if "length v = n" for v x
    using that lo hi by (simp add: add_at_def)
  from len have lens: "length (i_dr_avg st) = n" "length (i_dr_squared_average st) = n"
    "length (i_dE_avg st) = n" "length (i_dE_squared_average st) = n"
    "length (i_marker_den st) = n" "length (e_dr_avg st) = n"
    "length (e_dr_squared_average st) = n" "length (e_dE_avg st) = n"
    "length (e_dE_squared_average st) = n" "length (e_marker_den st) = n"
    by (simp_all add: bins_def)
  have "add_row table k st = Inr (st\<lparr>i_dr_avg := (i_dr_avg st)[nat (trunc (GET table k 0)) := i_dr_avg st ! nat (trunc (GET table k 0)) + GET table k 1],
    i_dr_squared_average := (i_dr_squared_average st)[nat (trunc (GET table k 0)) := i_dr_squared_average st ! nat (trunc (GET table k 0)) + GET table k 2],
    i_dE_avg := (i_dE_avg st)[nat (trunc (GET table k 0)) := i_dE_avg st ! nat (trunc (GET table k 0)) + GET table k 3],
    i_dE_squared_average := (i_dE_squared_average st)[nat (trunc (GET table k 0)) := i_dE_squared_average st ! nat (trunc (GET table k 0)) + GET table k 4],
    i_marker_den := (i_marker_den st)[nat (trunc (GET table k 0)) := i_marker_den st ! nat (trunc (GET table k 0)) + GET table k 5],
    e_dr_avg := (e_dr_avg st)[nat (trunc (GET table k 0)) := e_dr_avg st ! nat (trunc (GET table k 0)) + GET table k 6],
    e_dr_squared_average := (e_dr_squared_average st)[nat (trunc (GET table k 0)) := e_dr_squared_average st ! nat (trunc (GET table k 0)) + GET table k 7],
    e_dE_avg := (e_dE_avg st)[nat (trunc (GET table k 0)) := e_dE_avg st ! nat (trunc (GET table k 0)) + GET table k 8],
    e_dE_squared_average := (e_dE_squared_average st)[nat (trunc (GET table k 0)) := e_dE_squared_average st ! nat (trunc (GET table k 0)) + GET table k 9],
    e_marker_den := (e_marker_den st)[nat (trunc (GET table k 0)) := e_marker_den st ! nat (trunc (GET table k 0)) + GET table k 10]\<rparr>)"
    (is "_ = Inr ?st'")
    using idx unfolding add_row_def by (simp only: conv at lens and_then_Inr if_False not_less [symmetric])
  moreover have "same_env st ?st'" "trace ?st' = trace st"
    by (simp_all add: same_env_def)
  moreover have "bins ?st' = map2 (\<lambda>j v. v[nat (trunc (GET table k 0)) :=
                                     v ! nat (trunc (GET table k 0)) + GET table k j])
                          cols (bins st)"
    by (simp add: bins_def cols_def)
  ultimately show ?thesis by blast
qed

lemma row_sum_Nil [simp]: "row_sum table [] e j = 0"
  by (simp add: row_sum_def)

lemma row_sum_Cons:
  "row_sum table (k # ks) e j
     = (if trunc (GET table k 0) = int e then GET table k j else 0) + row_sum table ks e j"
  by (simp add: row_sum_def)

text \<open>The row loop adds to every bin the fields of the rows that name it.\<close>

lemma rows_loop:
  assumes "\<forall>v\<in>set (bins st). length v = n"
    and "\<forall>k\<in>set ks. int (k * NCOL + 10) \<le> INT_MAX
            \<and> 0 \<le> trunc (GET table k 0) \<and> trunc (GET table k 0) < int n"
    and "int n \<le> INT_MAX + 1"
  shows "\<exists>st'. for_each ks (add_row table) st = Inr st' \<and> same_env st st' \<and> trace st' = trace st
           \<and> (\<forall>v\<in>set (bins st'). length v = n)
           \<and> (\<forall>j<10. \<forall>e<n. bins st' ! j ! e = bins st ! j ! e + row_sum table ks e (Suc j))"
  using assms
proof (induction ks arbitrary: st)
  case Nil
  then show ?case by simp
next
  case (Cons k ks)
  let ?i = "nat (trunc (GET table k 0))"
  have ok: "int (k * NCOL + 10) \<le> INT_MAX" "0 \<le> trunc (GET table k 0)" "trunc (GET table k 0) < int n"
    using Cons.prems(2) by simp_all
  obtain a where a: "add_row table k st = Inr a" "same_env st a" "trace a = trace st"
    and ab: "bins a = map2 (\<lambda>j v. v[?i := v ! ?i + GET table k j]) cols (bins st)"
    using add_row_bins [OF Cons.prems(1) ok Cons.prems(3)] by blast
  have abj: "bins a ! j = (bins st ! j)[?i := bins st ! j ! ?i + GET table k (Suc j)]" if "j < 10" for j
    using that by (simp add: ab cols_nth)
  have lenj: "length (bins st ! j) = n" if "j < 10" for j
    using Cons.prems(1) that by simp
  have lena: "\<forall>v\<in>set (bins a). length v = n"
    unfolding all_set_conv_all_nth using abj lenj by simp
  have rest: "\<forall>k\<in>set ks. int (k * NCOL + 10) \<le> INT_MAX
            \<and> 0 \<le> trunc (GET table k 0) \<and> trunc (GET table k 0) < int n"
    using Cons.prems(2) by simp
  obtain b where b: "for_each ks (add_row table) a = Inr b" "same_env a b" "trace b = trace a"
    and lenb: "\<forall>v\<in>set (bins b). length v = n"
    and bb: "\<forall>j<10. \<forall>e<n. bins b ! j ! e = bins a ! j ! e + row_sum table ks e (Suc j)"
    using Cons.IH [OF lena rest Cons.prems(3)] by blast
  have sums: "bins b ! j ! e = bins st ! j ! e + row_sum table (k # ks) e (Suc j)"
    if "j < 10" "e < n" for j e
  proof -
    have "bins a ! j ! e = bins st ! j ! e + (if trunc (GET table k 0) = int e then GET table k (Suc j) else 0)"
      using that ok lenj [OF that(1)] by (auto simp: abj nth_list_update)
    then show ?thesis using bb that by (simp add: row_sum_Cons)
  qed
  have "for_each (k # ks) (add_row table) st = Inr b"
    using a(1) b(1) by simp
  moreover have "same_env st b" using a(2) b(2) by (rule same_env_trans)
  moreover have "trace b = trace st" using a(3) b(3) by simp
  ultimately show ?case using lenb sums by blast
qed

subsection \<open>Block sizes\<close>

lemma to_int32_mod: "to_int32 x mod 2 ^ 32 = x mod 2 ^ 32"
proof -
  have "to_int32 x mod 2 ^ 32 = ((x + 2 ^ 31) mod 2 ^ 32 - 2 ^ 31 mod 2 ^ 32) mod 2 ^ 32"
    unfolding to_int32_def by (simp add: mod_diff_right_eq)
  also have "\<dots> = (x + 2 ^ 31 - 2 ^ 31) mod 2 ^ 32"
    by (simp only: mod_diff_eq)
  finally show ?thesis by simp
qed

lemma to_int32_cong: "x mod 2 ^ 32 = y mod 2 ^ 32 \<Longrightarrow> to_int32 x = to_int32 y"
  unfolding to_int32_def by (metis mod_add_cong)

lemma to_int32_mult: "to_int32 (to_int32 a * b) = to_int32 (a * b)"
  by (rule to_int32_cong) (metis mod_mult_cong to_int32_mod)

lemma to_int32_small: "- (2 ^ 31) \<le> x \<Longrightarrow> x \<le> INT_MAX \<Longrightarrow> to_int32 x = x"
  by (simp add: to_int32_def INT_MAX_def)

lemma fold_ncount:
  "to_int32 (fold (\<lambda>d ncount. to_int32 (ncount * int d)) dims a) = to_int32 (a * int (prod_list dims))"
proof (induction dims arbitrary: a)
  case Nil
  then show ?case by simp
next
  case (Cons d dims)
  have "to_int32 (to_int32 (a * int d) * int (prod_list dims)) = to_int32 (a * int d * int (prod_list dims))"
    by (rule to_int32_mult)
  then show ?case by (simp add: Cons.IH mult.assoc)
qed

lemma fold_ncount_range:
  "- (2 ^ 31) \<le> a \<Longrightarrow> a \<le> INT_MAX \<Longrightarrow>
   to_int32 (fold (\<lambda>d ncount. to_int32 (ncount * int d)) dims a)
     = fold (\<lambda>d ncount. to_int32 (ncount * int d)) dims a"
proof (induction dims arbitrary: a)
  case Nil
  then show ?case by (simp add: to_int32_small)
next
  case (Cons d dims)
  have "- (2 ^ 31) \<le> to_int32 (a * int d)" "to_int32 (a * int d) \<le> INT_MAX"
    by (simp_all add: to_int32_def INT_MAX_def)
  then show ?case using Cons.IH by simp
qed

text \<open>The product of the dimensions, when it fits \<open>int\<close>, is what the loop computes.\<close>

lemma block_ncount_small:
  assumes "int (prod_list dims) \<le> INT_MAX"
  shows "block_ncount dims = int (prod_list dims)"
proof -
  have "block_ncount dims = to_int32 (block_ncount dims)"
    unfolding block_ncount_def by (rule fold_ncount_range [symmetric]) (simp_all add: INT_MAX_def)
  also have "\<dots> = to_int32 (1 * int (prod_list dims))"
    unfolding block_ncount_def by (rule fold_ncount)
  also have "\<dots> = int (prod_list dims)"
    using assms by (simp add: to_int32_small)
  finally show ?thesis .
qed

subsection \<open>Blocks and slices\<close>

lemma rows_of_entity:
  assumes "k < length table div NCOL"
  shows "entity_id (rows_of table ! k) = trunc (GET table k 0)"
proof -
  have "k * NCOL + 0 < length table"
    using assms by (simp add: NCOL_def) 
  then show ?thesis
    using assms by (simp add: rows_of_def entity_id_def GET_def NCOL_def)
qed

lemma rows_of_field:
  assumes "k < length table div NCOL" "j < NCOL"
  shows "rows_of table ! k ! j = GET table k j"
proof -
  have "k * NCOL + j < length table"
    using assms by (simp add: NCOL_def)
  then show ?thesis
    using assms by (simp add: rows_of_def GET_def)
qed

lemma read_block_bins:
  assumes len: "\<forall>v\<in>set (bins st). length v = n"
    and wf: "wf_block b"
    and ids: "ids_in_range (int n) b"
    and small: "int n \<le> INT_MAX + 1"
  shows "\<exists>st'. read_block b st = Inr st' \<and> same_env st st'
           \<and> trace st' = trace st @ block_events b
           \<and> (\<forall>v\<in>set (bins st'). length v = n)
           \<and> (\<forall>j<10. \<forall>e<n. bins st' ! j ! e = bins st ! j ! e + block_sum b e (Suc j))"
proof -
  let ?t = "payload b"
  let ?st1 = "st\<lparr>trace := trace st @ block_events b\<rparr>"
  have nc: "block_ncount (Count b) = int (length ?t)" and fit: "int (length ?t) \<le> INT_MAX"
    using wf by (simp_all add: wf_block_def block_ncount_small)
  have table: "(if 0 < block_ncount (Count b) then ?t else []) = ?t"
    by (simp add: nc)
  have st1: "(if 0 < block_ncount (Count b)
              then st\<lparr>trace := trace st @ [ReaderGet (BlockID b), ReaderPerformGets, DupPut ?t]\<rparr>
              else st) = ?st1"
    by (simp add: block_events_def)
  have nrow: "to_int32 (int (length ?t div NCOL)) = int (length ?t div NCOL)"
  proof (rule to_int32_small)
    have "int (length ?t div NCOL) \<le> int (length ?t)" by simp
    then show "int (length ?t div NCOL) \<le> INT_MAX" using fit by linarith
  qed simp
  have rb: "read_block b st = for_each [0..<length ?t div NCOL] (add_row ?t) ?st1"
    unfolding read_block_def Let_def table st1 nrow by (simp add: st1 table)
  have len1: "\<forall>v\<in>set (bins ?st1). length v = n"
    using len by (simp add: bins_def)
  have rows: "\<forall>k\<in>set [0..<length ?t div NCOL]. int (k * NCOL + 10) \<le> INT_MAX
            \<and> 0 \<le> trunc (GET ?t k 0) \<and> trunc (GET ?t k 0) < int n"
  proof
    fix k assume "k \<in> set [0..<length ?t div NCOL]"
    then have k: "k < length ?t div NCOL" by simp
    then have "k * NCOL + 10 < length ?t" by (simp add: NCOL_def)
    then have a: "int (k * NCOL + 10) \<le> INT_MAX" using fit by linarith
    have "rows_of ?t ! k \<in> set (rows_of ?t)"
      using k by (simp add: rows_of_def)
    then have "0 \<le> entity_id (rows_of ?t ! k) \<and> entity_id (rows_of ?t ! k) < int n"
      using ids by (simp add: ids_in_range_def list_all_iff)
    then show "int (k * NCOL + 10) \<le> INT_MAX
            \<and> 0 \<le> trunc (GET ?t k 0) \<and> trunc (GET ?t k 0) < int n"
      using a by (simp add: rows_of_entity [OF k])
  qed
  obtain st' where st': "for_each [0..<length ?t div NCOL] (add_row ?t) ?st1 = Inr st'"
      "same_env ?st1 st'" "trace st' = trace ?st1" "\<forall>v\<in>set (bins st'). length v = n"
      "\<forall>j<10. \<forall>e<n. bins st' ! j ! e = bins ?st1 ! j ! e
          + row_sum ?t [0..<length ?t div NCOL] e (Suc j)"
    using rows_loop [OF len1 rows small] by blast
  have "same_env st st'" using st'(2) by (simp add: same_env_def)
  moreover have "bins ?st1 = bins st" by (simp add: bins_def)
  ultimately show ?thesis
    using st' rb by (simp add: block_sum_def)
qed

lemma blocks_loop:
  assumes "\<forall>v\<in>set (bins st). length v = n"
    and "\<forall>i\<in>set ixs. i < length bl \<and> wf_block (bl ! i) \<and> ids_in_range (int n) (bl ! i)"
    and "int n \<le> INT_MAX + 1"
  shows "\<exists>st'. for_each ixs (\<lambda>i s. if i < length bl then read_block (bl ! i) s
                                      else Inl OutOfBounds) st = Inr st'
           \<and> same_env st st'
           \<and> trace st' = trace st @ concat (map (\<lambda>i. block_events (bl ! i)) ixs)
           \<and> (\<forall>v\<in>set (bins st'). length v = n)
           \<and> (\<forall>j<10. \<forall>e<n. bins st' ! j ! e
                  = bins st ! j ! e + sum_list (map (\<lambda>i. block_sum (bl ! i) e (Suc j)) ixs))"
  using assms
proof (induction ixs arbitrary: st)
  case Nil
  then show ?case by simp
next
  case (Cons i ixs)
  let ?body = "\<lambda>i s. if i < length bl then read_block (bl ! i) s else Inl OutOfBounds"
  have i: "i < length bl" "wf_block (bl ! i)" "ids_in_range (int n) (bl ! i)"
    using Cons.prems(2) by simp_all
  obtain a where a: "read_block (bl ! i) st = Inr a" "same_env st a"
      "trace a = trace st @ block_events (bl ! i)" "\<forall>v\<in>set (bins a). length v = n"
      "\<forall>j<10. \<forall>e<n. bins a ! j ! e = bins st ! j ! e + block_sum (bl ! i) e (Suc j)"
    using read_block_bins [OF Cons.prems(1) i(2,3) Cons.prems(3)] by blast
  have rest: "\<forall>i\<in>set ixs. i < length bl \<and> wf_block (bl ! i) \<and> ids_in_range (int n) (bl ! i)"
    using Cons.prems(2) by simp
  obtain b where b: "for_each ixs ?body a = Inr b" "same_env a b"
      "trace b = trace a @ concat (map (\<lambda>i. block_events (bl ! i)) ixs)"
      "\<forall>v\<in>set (bins b). length v = n"
      "\<forall>j<10. \<forall>e<n. bins b ! j ! e
          = bins a ! j ! e + sum_list (map (\<lambda>i. block_sum (bl ! i) e (Suc j)) ixs)"
    using Cons.IH [OF a(4) rest Cons.prems(3)] by blast
  have "for_each (i # ixs) ?body st = Inr b"
    using a(1) b(1) i(1) by simp
  moreover have "same_env st b" using a(2) b(2) by (rule same_env_trans)
  moreover have "trace b = trace st @ concat (map (\<lambda>i. block_events (bl ! i)) (i # ixs))"
    using a(3) b(3) by simp
  moreover have "\<forall>j<10. \<forall>e<n. bins b ! j ! e
      = bins st ! j ! e + sum_list (map (\<lambda>i. block_sum (bl ! i) e (Suc j)) (i # ixs))"
    using a(5) b(5) by simp
  ultimately show ?case using b(4) by blast
qed

lemma slice_of_bound:
  assumes "rk < W" "i \<in> set (slice_of vec W rk)"
  shows "i < length vec"
proof -
  have "i < fst (split_vector vec W (Suc rk))"
    using assms(2) by (simp add: slice_of_def split_vector_next)
  also have "\<dots> \<le> fst (split_vector vec W W)"
    by (rule split_vector_mono) (use assms(1) in simp)
  also have "\<dots> = length vec"
    by (rule split_vector_last) (use assms(1) in simp)
  finally show ?thesis .
qed

lemma slices_concat:
  "concat (map (slice_of vec W) [0..<n]) = [0..<fst (split_vector vec W n)]"
proof (induction n)
  case 0
  then show ?case by (simp add: split_vector_first)
next
  case (Suc n)
  have "[0..<fst (split_vector vec W n) + snd (split_vector vec W n)]
          = [0..<fst (split_vector vec W n)] @ slice_of vec W n"
    unfolding slice_of_def by (rule upt_add_eq_append) simp
  then show ?case using Suc by (simp add: split_vector_next)
qed

lemma slices_cover:
  assumes "1 \<le> W"
  shows "concat (map (slice_of vec W) [0..<W]) = [0..<length vec]"
  by (simp add: slices_concat split_vector_last [OF assms])

text \<open>The local phase of a Ready step: the bins hold the sums over the slice of the rank.\<close>

lemma read_step_bins:
  assumes n: "0 \<le> ntriangle st" "ntriangle st \<le> INT_MAX"
    and rk: "rank st < comm_size st"
    and wf: "\<forall>b\<in>set bl. wf_block b \<and> ids_in_range (ntriangle st) b"
  shows "\<exists>st'. read_step bl st = Inr st' \<and> same_env st st'
           \<and> trace st' = trace st
                @ concat (map (\<lambda>i. block_events (bl ! i)) (slice_of bl (comm_size st) (rank st)))
                @ [ReaderEndStep, DupEndStep]
           \<and> (\<forall>v\<in>set (bins st'). length v = nat (ntriangle st))
           \<and> (\<forall>j<10. \<forall>e<nat (ntriangle st). bins st' ! j ! e
                  = sum_list (map (\<lambda>i. block_sum (bl ! i) e (Suc j))
                      (slice_of bl (comm_size st) (rank st))))"
proof -
  let ?n = "nat (ntriangle st)"
  let ?z = "replicate ?n (0::real)"
  let ?st1 = "st\<lparr>i_dr_avg := ?z, i_dr_squared_average := ?z, i_dE_avg := ?z,
                 i_dE_squared_average := ?z, i_marker_den := ?z,
                 e_dr_avg := ?z, e_dr_squared_average := ?z, e_dE_avg := ?z,
                 e_dE_squared_average := ?z, e_marker_den := ?z\<rparr>"
  let ?ixs = "slice_of bl (comm_size st) (rank st)"
  have reset: "reset st = Inr ?st1"
    using n by (simp add: reset_def Let_def)
  have len1: "\<forall>v\<in>set (bins ?st1). length v = ?n"
    by (simp add: bins_def)
  have zero: "bins ?st1 ! j ! e = 0" if "j < 10" "e < ?n" for j e
  proof -
    have "bins ?st1 = replicate 10 ?z" by (simp add: bins_def numeral_eq_Suc)
    then show ?thesis using that by simp
  qed
  have ok: "\<forall>i\<in>set ?ixs. i < length bl \<and> wf_block (bl ! i) \<and> ids_in_range (int ?n) (bl ! i)"
  proof
    fix i assume "i \<in> set ?ixs"
    then have "i < length bl" using rk by (rule slice_of_bound [rotated])
    then show "i < length bl \<and> wf_block (bl ! i) \<and> ids_in_range (int ?n) (bl ! i)"
      using wf n by simp
  qed
  have small: "int ?n \<le> INT_MAX + 1" using n by simp
  obtain st2 where st2: "for_each ?ixs (\<lambda>i s. if i < length bl then read_block (bl ! i) s
                                      else Inl OutOfBounds) ?st1 = Inr st2"
      "same_env ?st1 st2"
      "trace st2 = trace ?st1 @ concat (map (\<lambda>i. block_events (bl ! i)) ?ixs)"
      "\<forall>v\<in>set (bins st2). length v = ?n"
      "\<forall>j<10. \<forall>e<?n. bins st2 ! j ! e
          = bins ?st1 ! j ! e + sum_list (map (\<lambda>i. block_sum (bl ! i) e (Suc j)) ?ixs)"
    using blocks_loop [OF len1 ok small] by blast
  let ?st3 = "st2\<lparr>trace := trace st2 @ [ReaderEndStep, DupEndStep]\<rparr>"
  have "read_step bl st = Inr ?st3"
    using st2(1) unfolding read_step_def reset Let_def slice_of_def by simp
  moreover have "same_env st ?st3"
    using st2(2) by (simp add: same_env_def)
  moreover have "trace ?st3 = trace st @ concat (map (\<lambda>i. block_events (bl ! i)) ?ixs)
                   @ [ReaderEndStep, DupEndStep]"
    using st2(3) by simp
  moreover have "bins ?st3 = bins st2" by (simp add: bins_def)
  ultimately show ?thesis using st2(4,5) zero by (intro exI [of _ ?st3]) simp
qed

section \<open>The diffusion pipeline: what a call does besides filling the bins\<close>

subsection \<open>Frames and traces\<close>

lemma add_row_frame:
  assumes "add_row table k st = Inr st'"
  shows "same_env st st' \<and> trace st' = trace st"
  using assms unfolding add_row_def
  by (auto simp: and_then_eq_Inr same_env_def split: if_splits)

lemma read_block_frame:
  assumes "read_block b st = Inr st'"
  shows "same_env st st' \<and> trace st' = trace st @ block_events b"
proof -
  let ?st1 = "st\<lparr>trace := trace st @ block_events b\<rparr>"
  let ?t = "if 0 < block_ncount (Count b) then payload b else []"
  have st1: "(if 0 < block_ncount (Count b)
              then st\<lparr>trace := trace st @ [ReaderGet (BlockID b), ReaderPerformGets, DupPut ?t]\<rparr>
              else st) = ?st1"
    by (simp add: block_events_def)
  have "for_each [0..<nat (to_int32 (int (length ?t div NCOL)))] (add_row ?t) ?st1 = Inr st'"
    using assms unfolding read_block_def Let_def st1 .
  then have "same_env ?st1 st' \<and> trace st' = trace ?st1"
  proof (rule for_each_invariant)
    show "same_env ?st1 ?st1 \<and> trace ?st1 = trace ?st1" by simp
  next
    fix k a c
    assume "same_env ?st1 a \<and> trace a = trace ?st1" "add_row ?t k a = Inr c"
    then show "same_env ?st1 c \<and> trace c = trace ?st1"
      using add_row_frame [of ?t k a c] same_env_trans by auto
  qed
  then show ?thesis by (simp add: same_env_def)
qed

lemma blocks_loop_frame:
  assumes "for_each ixs (\<lambda>i s. if i < length bl then read_block (bl ! i) s
                                else Inl OutOfBounds) st = Inr st'"
  shows "same_env st st' \<and> trace st' = trace st @ concat (map (\<lambda>i. block_events (bl ! i)) ixs)"
  using assms
proof (induction ixs arbitrary: st)
  case Nil
  then show ?case by simp
next
  case (Cons i ixs)
  from Cons.prems obtain a where a: "read_block (bl ! i) st = Inr a"
    and rest: "for_each ixs (\<lambda>i s. if i < length bl then read_block (bl ! i) s
                                else Inl OutOfBounds) a = Inr st'"
    by (auto simp: and_then_eq_Inr split: if_splits)
  show ?case
    using read_block_frame [OF a] Cons.IH [OF rest] same_env_trans by auto
qed

lemma reset_Inr:
  assumes "reset st = Inr st'"
  shows "same_env st st' \<and> trace st' = trace st"
  using assms by (auto simp: reset_def Let_def same_env_def split: if_splits)

lemma read_step_frame:
  assumes "read_step bl st = Inr st'"
  shows "same_env st st'
       \<and> trace st' = trace st
           @ concat (map (\<lambda>i. block_events (bl ! i)) (slice_of bl (comm_size st) (rank st)))
           @ [ReaderEndStep, DupEndStep]"
proof -
  from assms obtain st1 st2 where r: "reset st = Inr st1"
    and l: "for_each (slice_of bl (comm_size st1) (rank st1))
              (\<lambda>i s. if i < length bl then read_block (bl ! i) s else Inl OutOfBounds) st1 = Inr st2"
    and e: "st' = st2\<lparr>trace := trace st2 @ [ReaderEndStep, DupEndStep]\<rparr>"
    unfolding read_step_def Let_def slice_of_def by (auto simp: and_then_eq_Inr)
  have env: "same_env st st1" "trace st1 = trace st"
    using reset_Inr [OF r] by simp_all
  then have same: "comm_size st1 = comm_size st" "rank st1 = rank st"
    by (simp_all add: same_env_def)
  have "same_env st st2" using env(1) blocks_loop_frame [OF l] same_env_trans by blast
  then show ?thesis
    using blocks_loop_frame [OF l] env(2) e same by (simp add: same_env_def)
qed

lemma output_frame:
  "rank (output st) = rank st \<and> comm_size (output st) = comm_size st
   \<and> ntriangle (output st) = ntriangle st \<and> istep (output st) = istep st
   \<and> bins (output st) = bins st \<and> first (output st) = False
   \<and> trace (output st) = trace st
        @ (if first st then declare_layout (nat (ntriangle st mod 2 ^ 64)) else [])
        @ write_step st"
  by (simp add: output_def Let_def bins_def write_step_def)

lemma write_step_cong: "bins a = bins b \<Longrightarrow> write_step a = write_step b"
  by (simp add: write_step_def bins_def)

lemma reduce_step_frame:
  assumes "reduce_step others st = Inr st'"
  shows "rank st' = rank st \<and> comm_size st' = comm_size st \<and> ntriangle st' = ntriangle st
       \<and> istep st' = istep st + 1 \<and> istep st < INT_MAX
       \<and> first st' = (if rank st = 0 then False else first st)
       \<and> trace st' = trace st @ replicate 10 MpiReduce
           @ (if rank st = 0
              then (if first st then declare_layout (nat (ntriangle st mod 2 ^ 64)) else [])
                   @ write_step st'
              else [])"
proof -
  from assms obtain v1 v2 v3 v4 v5 v6 v7 v8 v9 v10 where
    st': "(let st1 = st\<lparr>i_dr_avg := v1, i_dr_squared_average := v2, i_dE_avg := v3,
                     i_dE_squared_average := v4, i_marker_den := v5,
                     e_dr_avg := v6, e_dr_squared_average := v7, e_dE_avg := v8,
                     e_dE_squared_average := v9, e_marker_den := v10,
                     trace := trace st @ replicate 10 MpiReduce\<rparr>;
           st2 = (if rank st1 = 0 then output st1 else st1)
       in if istep st2 < INT_MAX then Inr (st2\<lparr>istep := istep st2 + 1\<rparr>)
          else Inl IntOverflow) = Inr st'"
    unfolding reduce_step_def and_then_eq_Inr by blast
  let ?st1 = "st\<lparr>i_dr_avg := v1, i_dr_squared_average := v2, i_dE_avg := v3,
                     i_dE_squared_average := v4, i_marker_den := v5,
                     e_dr_avg := v6, e_dr_squared_average := v7, e_dE_avg := v8,
                     e_dE_squared_average := v9, e_marker_den := v10,
                     trace := trace st @ replicate 10 MpiReduce\<rparr>"
  let ?st2 = "if rank st = 0 then output ?st1 else ?st1"
  have r1: "rank ?st1 = rank st" by simp
  from st' have lt: "istep ?st2 < INT_MAX" and eq: "st' = ?st2\<lparr>istep := istep ?st2 + 1\<rparr>"
    unfolding Let_def r1 by (simp_all split: if_splits)
  show ?thesis
  proof (cases "rank st = 0")
    case True
    have w: "write_step st' = write_step ?st1"
      by (rule write_step_cong) (simp add: eq True bins_def output_frame [unfolded bins_def])
    show ?thesis
      using lt unfolding w by (simp add: eq True output_frame)
  next
    case False
    then show ?thesis using lt by (simp add: eq)
  qed
qed

lemma step_not_OK:
  "status \<noteq> OK \<Longrightarrow>
   step status bl others st = Inr (st\<lparr>trace := trace st @ [ReaderBeginStep status, DupBeginStep]\<rparr>)"
  by (simp add: step_def local_phase_def Let_def)

lemma step_OK_frame:
  assumes "step OK bl others st = Inr st'"
  shows "rank st' = rank st \<and> comm_size st' = comm_size st \<and> ntriangle st' = ntriangle st
       \<and> istep st' = istep st + 1 \<and> istep st < INT_MAX
       \<and> first st' = (if rank st = 0 then False else first st)
       \<and> trace st' = trace st @ [ReaderBeginStep OK, DupBeginStep]
           @ concat (map (\<lambda>i. block_events (bl ! i)) (slice_of bl (comm_size st) (rank st)))
           @ [ReaderEndStep, DupEndStep] @ replicate 10 MpiReduce
           @ (if rank st = 0
              then (if first st then declare_layout (nat (ntriangle st mod 2 ^ 64)) else [])
                   @ write_step st'
              else [])"
proof -
  let ?st0 = "st\<lparr>trace := trace st @ [ReaderBeginStep OK, DupBeginStep]\<rparr>"
  from assms obtain st1 where l: "read_step bl ?st0 = Inr st1" and r: "reduce_step others st1 = Inr st'"
    by (auto simp: step_def local_phase_def Let_def and_then_eq_Inr)
  have a: "same_env ?st0 st1" "trace st1 = trace ?st0
           @ concat (map (\<lambda>i. block_events (bl ! i)) (slice_of bl (comm_size ?st0) (rank ?st0)))
           @ [ReaderEndStep, DupEndStep]"
    using read_step_frame [OF l] by simp_all
  from a(1) have e: "rank st1 = rank st" "comm_size st1 = comm_size st" "ntriangle st1 = ntriangle st"
    "istep st1 = istep st" "first st1 = first st"
    by (simp_all add: same_env_def)
  show ?thesis
    using reduce_step_frame [OF r] a(2) by (simp add: e)
qed

subsection \<open>Projections of the trace of a call\<close>

lemma filter_sink_block_events [simp]: "filter sink_event (block_events b) = []"
  by (simp add: block_events_def)

lemma filter_sink_blocks [simp]:
  "filter sink_event (concat (map (\<lambda>i. block_events (bl ! i)) ixs)) = []"
  by (induction ixs) simp_all

lemma filter_sink_declare [simp]: "filter sink_event (declare_layout n) = declare_layout n"
  by (simp add: declare_layout_def)

lemma filter_sink_write [simp]: "filter sink_event (write_step st) = write_step st"
  by (simp add: write_step_def)

lemma filter_dup_block_events: "list_all is_DupPut (filter dup_event (block_events b))"
  by (simp add: block_events_def)

lemma filter_dup_blocks:
  "list_all is_DupPut (filter dup_event (concat (map (\<lambda>i. block_events (bl ! i)) ixs)))"
  by (induction ixs) (simp_all add: filter_dup_block_events)

lemma filter_dup_declare [simp]: "filter dup_event (declare_layout n) = []"
  by (simp add: declare_layout_def)

lemma filter_dup_write [simp]: "filter dup_event (write_step st) = []"
  by (simp add: write_step_def)

lemma count_reduce_block_events [simp]: "count_list (block_events b) MpiReduce = 0"
  by (simp add: block_events_def)

text \<open>
  Claim C4. A call of \<open>Diffusion::step\<close> whose \<open>BeginStep\<close> returns \<open>NotReady\<close>
  returns; the ten bin sequences, \<open>istep\<close> and the static flag of \<open>output\<close> are as
  before; the call adds to the trace the two \<open>BeginStep\<close> events and nothing else, so
  \<open>MPI_Reduce\<close> is not called and nothing goes to the persisted output.
\<close>

theorem step_not_ready:
  "\<exists>st'. step NotReady block_list others st = Inr st'
     \<and> bins st' = bins st
     \<and> istep st' = istep st
     \<and> first st' = first st
     \<and> trace st' = trace st @ [ReaderBeginStep NotReady, DupBeginStep]
     \<and> count_list (trace st') MpiReduce = count_list (trace st) MpiReduce
     \<and> filter sink_event (trace st') = filter sink_event (trace st)"
  by (simp add: step_not_OK bins_def)

theorem step_not_ready_witness:
  "\<exists>st'. step NotReady [] []
       \<lparr>rank = 0, comm_size = 1, ntriangle = 2, istep = 3,
        i_dr_avg = [1, 2], i_dr_squared_average = [0, 0], i_dE_avg = [0, 0],
        i_dE_squared_average = [0, 0], i_marker_den = [0, 0],
        e_dr_avg = [0, 0], e_dr_squared_average = [0, 0], e_dE_avg = [0, 0],
        e_dE_squared_average = [0, 0], e_marker_den = [5, 6],
        first = False, trace = []\<rparr> = Inr st'
     \<and> i_dr_avg st' = [1, 2] \<and> e_marker_den st' = [5, 6] \<and> istep st' = 3
     \<and> trace st' = [ReaderBeginStep NotReady, DupBeginStep]"
  using step_not_ready [of "[]" "[]" "\<lparr>rank = 0, comm_size = 1, ntriangle = 2, istep = 3,
        i_dr_avg = [1, 2], i_dr_squared_average = [0, 0], i_dE_avg = [0, 0],
        i_dE_squared_average = [0, 0], i_marker_den = [0, 0],
        e_dr_avg = [0, 0], e_dr_squared_average = [0, 0], e_dE_avg = [0, 0],
        e_dE_squared_average = [0, 0], e_marker_den = [5, 6],
        first = False, trace = []\<rparr>"]
  by (auto simp: bins_def)

text \<open>
  Claim C9. Every call of \<open>Diffusion::step\<close> that returns has first added
  \<open>reader.BeginStep\<close> and \<open>dup_writer.BeginStep\<close> to the trace. When the status is not
  \<open>OK\<close> the call returns and that \<open>BeginStep\<close> is its only event on the duplicate
  stream, so the step it began stays open; when the status is \<open>OK\<close> the events of the
  call on the duplicate stream are \<open>BeginStep\<close>, \<open>Put\<close>s and \<open>EndStep\<close>.
\<close>

theorem dup_stream_step:
  "(\<forall>st'. step status bl others st = Inr st' \<longrightarrow>
      (\<exists>rest. trace st' = trace st @ [ReaderBeginStep status, DupBeginStep] @ rest))
   \<and> (status \<noteq> OK \<longrightarrow>
        (\<exists>st'. step status bl others st = Inr st'
           \<and> filter dup_event (trace st') = filter dup_event (trace st) @ [DupBeginStep]))
   \<and> (\<forall>st'. step OK bl others st = Inr st' \<longrightarrow>
        (\<exists>puts. list_all is_DupPut puts
           \<and> filter dup_event (trace st')
               = filter dup_event (trace st) @ [DupBeginStep] @ puts @ [DupEndStep]))"
proof (intro conjI allI impI)
  fix st' assume s: "step status bl others st = Inr st'"
  show "\<exists>rest. trace st' = trace st @ [ReaderBeginStep status, DupBeginStep] @ rest"
  proof (cases "status = OK")
    case True
    then show ?thesis using step_OK_frame [of bl others st st'] s by simp
  next
    case False
    then show ?thesis using step_not_OK [of status bl others st] s by auto
  qed
next
  assume "status \<noteq> OK"
  then show "\<exists>st'. step status bl others st = Inr st'
           \<and> filter dup_event (trace st') = filter dup_event (trace st) @ [DupBeginStep]"
    by (simp add: step_not_OK)
next
  fix st' assume s: "step OK bl others st = Inr st'"
  let ?puts = "filter dup_event
    (concat (map (\<lambda>i. block_events (bl ! i)) (slice_of bl (comm_size st) (rank st))))"
  have "filter dup_event (trace st')
          = filter dup_event (trace st) @ [DupBeginStep] @ ?puts @ [DupEndStep]"
    using step_OK_frame [OF s] by simp
  then show "\<exists>puts. list_all is_DupPut puts
           \<and> filter dup_event (trace st')
               = filter dup_event (trace st) @ [DupBeginStep] @ puts @ [DupEndStep]"
    using filter_dup_blocks by blast
qed

subsection \<open>The step counter, in both pipelines\<close>

lemma step_istep:
  assumes "step status bl others st = Inr st'"
  shows "istep st' = (if status = OK then istep st + 1 else istep st)"
proof (cases "status = OK")
  case True
  then show ?thesis using step_OK_frame [of bl others st st'] assms by simp
next
  case False
  then show ?thesis using step_not_OK [of status bl others st] assms by auto
qed

lemma run_istep:
  assumes "run calls st = Inr st'"
  shows "istep st' = istep st + int (length (filter (\<lambda>c. fst c = OK) calls))"
  using assms
proof (induction calls arbitrary: st)
  case Nil
  then show ?case by (simp add: run_def)
next
  case (Cons c calls)
  obtain status bl others where c: "c = (status, bl, others)" by (cases c) auto
  from Cons.prems obtain a where a: "step status bl others st = Inr a" and rest: "run calls a = Inr st'"
    by (auto simp: run_def c and_then_eq_Inr)
  show ?case
    using step_istep [OF a] Cons.IH [OF rest] by (simp add: c)
qed

lemma step_h_istep:
  assumes "step_h escaped psync status bi be ig eg h = Inr h'"
  shows "istep_h h' = (if status = OK then istep_h h + 1 else istep_h h)"
  using assms unfolding step_h_def
  by (auto simp: and_then_eq_Inr Let_def split: if_splits prod.splits)

lemma run_h_istep:
  assumes "run_h escaped psync calls h = Inr h'"
  shows "istep_h h' = istep_h h + int (length (filter (\<lambda>c. fst c = OK) calls))"
  using assms
proof (induction calls arbitrary: h)
  case Nil
  then show ?case by (simp add: run_h_def)
next
  case (Cons c calls)
  obtain status bi be ig eg where c: "c = (status, bi, be, ig, eg)" by (cases c) auto
  from Cons.prems obtain a where a: "step_h escaped psync status bi be ig eg h = Inr a"
    and rest: "run_h escaped psync calls a = Inr h'"
    by (auto simp: run_h_def c and_then_eq_Inr)
  show ?case
    using step_h_istep [OF a] Cons.IH [OF rest] by (simp add: c)
qed

text \<open>
  Claim C8. In both pipelines \<open>istep\<close> is 0 after construction, whatever the static of
  \<open>Diffusion::output\<close> holds; a call of \<open>step\<close> that
  returns leaves \<open>istep + 1\<close> when its status is \<open>OK\<close> and \<open>istep\<close> for any other
  status; over a run \<open>istep\<close> never decreases and grows by the number of calls whose
  status was \<open>OK\<close>.
\<close>

theorem istep_counts_steps:
  "(\<forall>st0. Diffusion_new out_first rk W n_t = Inr st0 \<longrightarrow> istep st0 = 0)
   \<and> istep_h (Heatload_new rk W) = 0
   \<and> (\<forall>st'. step status bl others st = Inr st' \<longrightarrow>
         istep st' = (if status = OK then istep st + 1 else istep st))
   \<and> (\<forall>h'. step_h escaped psync status bi be ig eg h = Inr h' \<longrightarrow>
         istep_h h' = (if status = OK then istep_h h + 1 else istep_h h))
   \<and> (\<forall>st'. run calls st = Inr st' \<longrightarrow>
         istep st \<le> istep st'
         \<and> istep st' = istep st + int (length (filter (\<lambda>c. fst c = OK) calls)))
   \<and> (\<forall>h'. run_h escaped psync hcalls h = Inr h' \<longrightarrow>
         istep_h h \<le> istep_h h'
         \<and> istep_h h' = istep_h h + int (length (filter (\<lambda>c. fst c = OK) hcalls)))"
proof (intro conjI allI impI)
  fix st0 assume "Diffusion_new out_first rk W n_t = Inr st0"
  then show "istep st0 = 0"
    by (auto simp: Diffusion_new_def reset_def Let_def split: if_splits)
next
  show "istep_h (Heatload_new rk W) = 0" by (simp add: Heatload_new_def)
next
  fix st' assume "step status bl others st = Inr st'"
  then show "istep st' = (if status = OK then istep st + 1 else istep st)" by (rule step_istep)
next
  fix h' assume "step_h escaped psync status bi be ig eg h = Inr h'"
  then show "istep_h h' = (if status = OK then istep_h h + 1 else istep_h h)" by (rule step_h_istep)
next
  fix st' assume r: "run calls st = Inr st'"
  show "istep st' = istep st + int (length (filter (\<lambda>c. fst c = OK) calls))"
    by (rule run_istep [OF r])
  then show "istep st \<le> istep st'" by simp
next
  fix h' assume r: "run_h escaped psync hcalls h = Inr h'"
  show "istep_h h' = istep_h h + int (length (filter (\<lambda>c. fst c = OK) hcalls))"
    by (rule run_h_istep [OF r])
  then show "istep_h h \<le> istep_h h'" by simp
qed

section \<open>The diffusion pipeline: a step does not depend on the bins before it\<close>

lemma same_bins_fields:
  assumes "same_bins a b"
  shows "rank a = rank b" "comm_size a = comm_size b" "ntriangle a = ntriangle b"
    "i_dr_avg a = i_dr_avg b" "i_dr_squared_average a = i_dr_squared_average b"
    "i_dE_avg a = i_dE_avg b" "i_dE_squared_average a = i_dE_squared_average b"
    "i_marker_den a = i_marker_den b" "e_dr_avg a = e_dr_avg b"
    "e_dr_squared_average a = e_dr_squared_average b" "e_dE_avg a = e_dE_avg b"
    "e_dE_squared_average a = e_dE_squared_average b" "e_marker_den a = e_marker_den b"
  using assms by (simp_all add: same_bins_def bins_def)

lemma add_row_same:
  assumes "same_bins a b" "add_row table k a = Inr a'"
  shows "\<exists>b'. add_row table k b = Inr b' \<and> same_bins a' b'"
proof -
  note f = same_bins_fields [OF assms(1)]
  from assms(2) obtain itri v1 v2 v3 v4 v5 v6 v7 v8 v9 v10 where
    ok: "\<not> INT_MAX < int (k * NCOL + 10)"
    and r: "double_to_int (GET table k 0) = Inr itri"
      "add_at (i_dr_avg a) itri (GET table k 1) = Inr v1"
      "add_at (i_dr_squared_average a) itri (GET table k 2) = Inr v2"
      "add_at (i_dE_avg a) itri (GET table k 3) = Inr v3"
      "add_at (i_dE_squared_average a) itri (GET table k 4) = Inr v4"
      "add_at (i_marker_den a) itri (GET table k 5) = Inr v5"
      "add_at (e_dr_avg a) itri (GET table k 6) = Inr v6"
      "add_at (e_dr_squared_average a) itri (GET table k 7) = Inr v7"
      "add_at (e_dE_avg a) itri (GET table k 8) = Inr v8"
      "add_at (e_dE_squared_average a) itri (GET table k 9) = Inr v9"
      "add_at (e_marker_den a) itri (GET table k 10) = Inr v10"
    and a': "a' = a\<lparr>i_dr_avg := v1, i_dr_squared_average := v2, i_dE_avg := v3,
                   i_dE_squared_average := v4, i_marker_den := v5,
                   e_dr_avg := v6, e_dr_squared_average := v7, e_dE_avg := v8,
                   e_dE_squared_average := v9, e_marker_den := v10\<rparr>"
    by (auto simp: add_row_def and_then_eq_Inr split: if_splits)
  have "add_row table k b = Inr (b\<lparr>i_dr_avg := v1, i_dr_squared_average := v2, i_dE_avg := v3,
                   i_dE_squared_average := v4, i_marker_den := v5,
                   e_dr_avg := v6, e_dr_squared_average := v7, e_dE_avg := v8,
                   e_dE_squared_average := v9, e_marker_den := v10\<rparr>)"
    unfolding add_row_def using ok r by (simp add: f [symmetric])
  moreover have "same_bins a' (b\<lparr>i_dr_avg := v1, i_dr_squared_average := v2, i_dE_avg := v3,
                   i_dE_squared_average := v4, i_marker_den := v5,
                   e_dr_avg := v6, e_dr_squared_average := v7, e_dE_avg := v8,
                   e_dE_squared_average := v9, e_marker_den := v10\<rparr>)"
    using f by (simp add: a' same_bins_def bins_def)
  ultimately show ?thesis by blast
qed

lemma for_each_same:
  assumes "\<And>x a b a'. R a b \<Longrightarrow> body x a = Inr a' \<Longrightarrow> \<exists>b'. body x b = Inr b' \<and> R a' b'"
    and "R s t" "for_each xs body s = Inr s'"
  shows "\<exists>t'. for_each xs body t = Inr t' \<and> R s' t'"
  using assms(2,3)
proof (induction xs arbitrary: s t)
  case Nil
  then show ?case by auto
next
  case (Cons x xs)
  from Cons.prems(2) obtain a where a: "body x s = Inr a" and rest: "for_each xs body a = Inr s'"
    by (auto simp: and_then_eq_Inr)
  obtain b where b: "body x t = Inr b" "R a b"
    using assms(1) [OF Cons.prems(1) a] by blast
  show ?case using Cons.IH [OF b(2) rest] b(1) by simp
qed

lemma read_block_same:
  assumes "same_bins a b" "read_block blk a = Inr a'"
  shows "\<exists>b'. read_block blk b = Inr b' \<and> same_bins a' b'"
proof -
  let ?t = "if 0 < block_ncount (Count blk) then payload blk else []"
  let ?ev = "[ReaderGet (BlockID blk), ReaderPerformGets, DupPut ?t]"
  let ?a1 = "if 0 < block_ncount (Count blk) then a\<lparr>trace := trace a @ ?ev\<rparr> else a"
  let ?b1 = "if 0 < block_ncount (Count blk) then b\<lparr>trace := trace b @ ?ev\<rparr> else b"
  have s1: "same_bins ?a1 ?b1"
    using assms(1) by (simp add: same_bins_def bins_def)
  have l: "for_each [0..<nat (to_int32 (int (length ?t div NCOL)))] (add_row ?t) ?a1 = Inr a'"
    using assms(2) unfolding read_block_def Let_def .
  have "\<exists>b'. for_each [0..<nat (to_int32 (int (length ?t div NCOL)))] (add_row ?t) ?b1 = Inr b'
          \<and> same_bins a' b'"
    by (rule for_each_same [where R = same_bins, OF _ s1 l]) (rule add_row_same)
  then show ?thesis unfolding read_block_def Let_def .
qed

lemma reset_same:
  assumes "rank a = rank b" "comm_size a = comm_size b" "ntriangle a = ntriangle b"
    and "reset a = Inr a'"
  shows "\<exists>b'. reset b = Inr b' \<and> same_bins a' b'"
  using assms by (auto simp: reset_def Let_def same_bins_def bins_def split: if_splits)

lemma read_step_same:
  assumes "rank a = rank b" "comm_size a = comm_size b" "ntriangle a = ntriangle b"
    and "read_step bl a = Inr a'"
  shows "\<exists>b'. read_step bl b = Inr b' \<and> same_bins a' b'"
proof -
  let ?body = "\<lambda>i s. if i < length bl then read_block (bl ! i) s else Inl OutOfBounds"
  from assms(4) obtain a1 a2 where r: "reset a = Inr a1"
    and l: "for_each (slice_of bl (comm_size a1) (rank a1)) ?body a1 = Inr a2"
    and e: "a' = a2\<lparr>trace := trace a2 @ [ReaderEndStep, DupEndStep]\<rparr>"
    unfolding read_step_def Let_def slice_of_def by (auto simp: and_then_eq_Inr)
  obtain b1 where b1: "reset b = Inr b1" "same_bins a1 b1"
    using reset_same [OF assms(1-3) r] by blast
  have body: "\<exists>y'. ?body i y = Inr y' \<and> same_bins x' y'"
    if "same_bins x y" "?body i x = Inr x'" for i x y x'
    using that read_block_same [of x y "bl ! i" x'] by (auto split: if_splits)
  have "\<exists>b2. for_each (slice_of bl (comm_size a1) (rank a1)) ?body b1 = Inr b2 \<and> same_bins a2 b2"
    by (rule for_each_same [where R = same_bins and body = ?body, OF _ b1(2) l]) (rule body)
  then obtain b2 where b2: "for_each (slice_of bl (comm_size a1) (rank a1)) ?body b1 = Inr b2"
      "same_bins a2 b2"
    by blast
  have eq: "comm_size b1 = comm_size a1" "rank b1 = rank a1"
    using b1(2) by (simp_all add: same_bins_def)
  have "read_step bl b = Inr (b2\<lparr>trace := trace b2 @ [ReaderEndStep, DupEndStep]\<rparr>)"
    unfolding read_step_def Let_def using b1(1) b2(1) by (simp add: eq slice_of_def)
  moreover have "same_bins a' (b2\<lparr>trace := trace b2 @ [ReaderEndStep, DupEndStep]\<rparr>)"
    using b2(2) by (simp add: e same_bins_def bins_def)
  ultimately show ?thesis by blast
qed

lemma reduce_step_same:
  assumes "same_bins a b" "reduce_step others a = Inr a'" "istep b < INT_MAX"
  shows "\<exists>b'. reduce_step others b = Inr b' \<and> bins b' = bins a'"
proof -
  note f = same_bins_fields [OF assms(1)]
  from assms(2) obtain v1 v2 v3 v4 v5 v6 v7 v8 v9 v10 where
    r: "vec_reduce (rank a) (map i_dr_avg others) (i_dr_avg a) = Inr v1"
      "vec_reduce (rank a) (map i_dr_squared_average others) (i_dr_squared_average a) = Inr v2"
      "vec_reduce (rank a) (map i_dE_avg others) (i_dE_avg a) = Inr v3"
      "vec_reduce (rank a) (map i_dE_squared_average others) (i_dE_squared_average a) = Inr v4"
      "vec_reduce (rank a) (map i_marker_den others) (i_marker_den a) = Inr v5"
      "vec_reduce (rank a) (map e_dr_avg others) (e_dr_avg a) = Inr v6"
      "vec_reduce (rank a) (map e_dr_squared_average others) (e_dr_squared_average a) = Inr v7"
      "vec_reduce (rank a) (map e_dE_avg others) (e_dE_avg a) = Inr v8"
      "vec_reduce (rank a) (map e_dE_squared_average others) (e_dE_squared_average a) = Inr v9"
      "vec_reduce (rank a) (map e_marker_den others) (e_marker_den a) = Inr v10"
    and a': "(let st1 = a\<lparr>i_dr_avg := v1, i_dr_squared_average := v2, i_dE_avg := v3,
                     i_dE_squared_average := v4, i_marker_den := v5,
                     e_dr_avg := v6, e_dr_squared_average := v7, e_dE_avg := v8,
                     e_dE_squared_average := v9, e_marker_den := v10,
                     trace := trace a @ replicate 10 MpiReduce\<rparr>;
           st2 = (if rank st1 = 0 then output st1 else st1)
       in if istep st2 < INT_MAX then Inr (st2\<lparr>istep := istep st2 + 1\<rparr>)
          else Inl IntOverflow) = Inr a'"
    unfolding reduce_step_def and_then_eq_Inr by blast
  have ba: "bins a' = [v1, v2, v3, v4, v5, v6, v7, v8, v9, v10]"
    using a' by (auto simp: Let_def bins_def output_def split: if_splits)
  let ?b1 = "b\<lparr>i_dr_avg := v1, i_dr_squared_average := v2, i_dE_avg := v3,
                     i_dE_squared_average := v4, i_marker_den := v5,
                     e_dr_avg := v6, e_dr_squared_average := v7, e_dE_avg := v8,
                     e_dE_squared_average := v9, e_marker_den := v10,
                     trace := trace b @ replicate 10 MpiReduce\<rparr>"
  let ?b2 = "if rank b = 0 then output ?b1 else ?b1"
  have ib: "istep ?b2 = istep b"
    by (simp add: output_frame)
  have "reduce_step others b = Inr (?b2\<lparr>istep := istep ?b2 + 1\<rparr>)"
    unfolding reduce_step_def f [symmetric] r and_then_Inr Let_def
    using assms(3) ib by (simp add: f)
  moreover have "bins (?b2\<lparr>istep := istep ?b2 + 1\<rparr>) = [v1, v2, v3, v4, v5, v6, v7, v8, v9, v10]"
    by (simp add: bins_def output_def Let_def)
  ultimately show ?thesis using ba by simp
qed

lemma step_same:
  assumes "rank a = rank b" "comm_size a = comm_size b" "ntriangle a = ntriangle b"
    and "step OK bl others a = Inr a'" "istep b < INT_MAX"
  shows "\<exists>b'. step OK bl others b = Inr b' \<and> bins b' = bins a'"
proof -
  let ?a0 = "a\<lparr>trace := trace a @ [ReaderBeginStep OK, DupBeginStep]\<rparr>"
  let ?b0 = "b\<lparr>trace := trace b @ [ReaderBeginStep OK, DupBeginStep]\<rparr>"
  from assms(4) obtain a1 where l: "read_step bl ?a0 = Inr a1" and r: "reduce_step others a1 = Inr a'"
    by (auto simp: step_def local_phase_def Let_def and_then_eq_Inr)
  have "rank ?a0 = rank ?b0" "comm_size ?a0 = comm_size ?b0" "ntriangle ?a0 = ntriangle ?b0"
    using assms(1-3) by simp_all
  then obtain b1 where b1: "read_step bl ?b0 = Inr b1" "same_bins a1 b1"
    using read_step_same [OF _ _ _ l] by blast
  have "istep b1 = istep b"
    using read_step_frame [OF b1(1)] by (simp add: same_env_def)
  then obtain b' where "reduce_step others b1 = Inr b'" "bins b' = bins a'"
    using reduce_step_same [OF b1(2) r] assms(5) by auto
  then show ?thesis
    using b1(1) by (simp add: step_def local_phase_def Let_def)
qed

lemma reset_zero:
  assumes "reset st = Inr a"
  shows "bins a = replicate 10 (replicate (nat (ntriangle st)) 0)"
proof -
  have "replicate 10 x = [x, x, x, x, x, x, x, x, x, x]" for x :: "real list"
    by (simp add: numeral_eq_Suc)
  then show ?thesis
    using assms by (auto simp: reset_def Let_def bins_def split: if_splits)
qed

text \<open>
  Claim C6. If a Ready step succeeds, and \<open>istep\<close> can be incremented once more, then
  the same step on the same input, run on the object that the first one left, succeeds
  as well and leaves the same ten bin sequences: nothing is carried over. The reason is
  that \<open>reset\<close>, with which a Ready step starts, leaves ten sequences of \<open>ntriangle\<close>
  zeros whatever the bins held.
\<close>

theorem ready_step_twice:
  assumes "step OK block_list others st = Inr st1"
    and "istep st1 < INT_MAX"
  shows "(\<exists>st2. step OK block_list others st1 = Inr st2 \<and> bins st2 = bins st1)
       \<and> (\<forall>a. reset st1 = Inr a \<longrightarrow> bins a = replicate 10 (replicate (nat (ntriangle st1)) 0))"
proof
  have "rank st = rank st1" "comm_size st = comm_size st1" "ntriangle st = ntriangle st1"
    using step_OK_frame [OF assms(1)] by simp_all
  then show "\<exists>st2. step OK block_list others st1 = Inr st2 \<and> bins st2 = bins st1"
    using assms by (rule step_same)
  show "\<forall>a. reset st1 = Inr a \<longrightarrow> bins a = replicate 10 (replicate (nat (ntriangle st1)) 0)"
    using reset_zero by blast
qed

section \<open>The diffusion pipeline: the bins of the coordinator\<close>

subsection \<open>The reduction\<close>

lemma fold_map2_length:
  "\<forall>v\<in>set os. length v = length acc \<Longrightarrow>
   length (fold (\<lambda>v acc. map2 (+) acc v) os acc) = length (acc :: real list)"
  by (induction os arbitrary: acc) simp_all

lemma fold_map2_nth:
  "\<forall>v\<in>set os. length v = length acc \<Longrightarrow> e < length acc \<Longrightarrow>
   fold (\<lambda>v acc. map2 (+) acc v) os acc ! e = (acc :: real list) ! e + sum_list (map (\<lambda>v. v ! e) os)"
  by (induction os arbitrary: acc) (simp_all add: add.assoc)

lemma vec_reduce_root:
  assumes "\<forall>v\<in>set os. length v = length vec"
  shows "vec_reduce 0 os vec = Inr (fold (\<lambda>v acc. map2 (+) acc v) os vec)"
  using assms by (simp add: vec_reduce_def list_all_iff)

lemma bins_nth:
  "bins st ! 0 = i_dr_avg st" "bins st ! Suc 0 = i_dr_squared_average st"
  "bins st ! 2 = i_dE_avg st" "bins st ! 3 = i_dE_squared_average st"
  "bins st ! 4 = i_marker_den st" "bins st ! 5 = e_dr_avg st"
  "bins st ! 6 = e_dr_squared_average st" "bins st ! 7 = e_dE_avg st"
  "bins st ! 8 = e_dE_squared_average st" "bins st ! 9 = e_marker_den st"
  by (simp_all add: bins_def)

lemma less_10_cases:
  assumes "j < 10"
  obtains "j = 0" | "j = Suc 0" | "j = 2" | "j = 3" | "j = 4" | "j = 5" | "j = 6" | "j = 7"
    | "j = 8" | "j = (9::nat)"
proof -
  have "j = 0 \<or> j = Suc 0 \<or> j = 2 \<or> j = 3 \<or> j = 4 \<or> j = 5 \<or> j = 6 \<or> j = 7 \<or> j = 8 \<or> j = 9"
    using assms by arith
  then show ?thesis using that by blast
qed

lemma reduce_step_root:
  assumes rk: "rank st = 0"
    and len: "\<forall>v\<in>set (bins st). length v = n"
    and others: "\<forall>p\<in>set others. \<forall>v\<in>set (bins p). length v = n"
    and ist: "istep st < INT_MAX"
  shows "\<exists>st'. reduce_step others st = Inr st'
           \<and> (\<forall>j<10. bins st' ! j = vsum others j (bins st ! j))"
proof -
  have l: "length (f st) = n" "\<forall>v\<in>set (map f others). length v = length (f st)"
    if "\<And>p. f p \<in> set (bins p)" for f
  proof -
    show a: "length (f st) = n" using len that by blast
    show "\<forall>v\<in>set (map f others). length v = length (f st)"
      unfolding a using others that by auto
  qed
  have r: "vec_reduce (rank st) (map f others) (f st)
             = Inr (fold (\<lambda>v acc. map2 (+) acc v) (map f others) (f st))"
    if "\<And>p. f p \<in> set (bins p)" for f
    unfolding rk by (rule vec_reduce_root) (rule l(2) [OF that])
  have rs: "vec_reduce (rank st) (map i_dr_avg others) (i_dr_avg st)
             = Inr (vsum others 0 (bins st ! 0))"
    "vec_reduce (rank st) (map i_dr_squared_average others) (i_dr_squared_average st)
             = Inr (vsum others (Suc 0) (bins st ! Suc 0))"
    "vec_reduce (rank st) (map i_dE_avg others) (i_dE_avg st)
             = Inr (vsum others 2 (bins st ! 2))"
    "vec_reduce (rank st) (map i_dE_squared_average others) (i_dE_squared_average st)
             = Inr (vsum others 3 (bins st ! 3))"
    "vec_reduce (rank st) (map i_marker_den others) (i_marker_den st)
             = Inr (vsum others 4 (bins st ! 4))"
    "vec_reduce (rank st) (map e_dr_avg others) (e_dr_avg st)
             = Inr (vsum others 5 (bins st ! 5))"
    "vec_reduce (rank st) (map e_dr_squared_average others) (e_dr_squared_average st)
             = Inr (vsum others 6 (bins st ! 6))"
    "vec_reduce (rank st) (map e_dE_avg others) (e_dE_avg st)
             = Inr (vsum others 7 (bins st ! 7))"
    "vec_reduce (rank st) (map e_dE_squared_average others) (e_dE_squared_average st)
             = Inr (vsum others 8 (bins st ! 8))"
    "vec_reduce (rank st) (map e_marker_den others) (e_marker_den st)
             = Inr (vsum others 9 (bins st ! 9))"
    unfolding vsum_def bins_nth by (rule r, simp add: bins_def)+
  let ?st1 = "st\<lparr>i_dr_avg := vsum others 0 (bins st ! 0),
                  i_dr_squared_average := vsum others (Suc 0) (bins st ! Suc 0),
                  i_dE_avg := vsum others 2 (bins st ! 2),
                  i_dE_squared_average := vsum others 3 (bins st ! 3),
                  i_marker_den := vsum others 4 (bins st ! 4),
                  e_dr_avg := vsum others 5 (bins st ! 5),
                  e_dr_squared_average := vsum others 6 (bins st ! 6),
                  e_dE_avg := vsum others 7 (bins st ! 7),
                  e_dE_squared_average := vsum others 8 (bins st ! 8),
                  e_marker_den := vsum others 9 (bins st ! 9),
                  trace := trace st @ replicate 10 MpiReduce\<rparr>"
  let ?st' = "(output ?st1)\<lparr>istep := istep (output ?st1) + 1\<rparr>"
  have io: "istep (output ?st1) = istep st" by (simp add: output_frame)
  have "reduce_step others st = Inr ?st'"
    unfolding reduce_step_def rs and_then_Inr Let_def using rk ist io by simp
  moreover have "bins ?st' ! j = vsum others j (bins st ! j)" if "j < 10" for j
  proof -
    have "bins ?st' = bins ?st1"
      using output_frame [of ?st1] by (simp add: bins_def)
    then show ?thesis
      using that by (elim less_10_cases) (simp_all add: bins_nth)
  qed
  ultimately show ?thesis by blast
qed

lemma vsum_sized:
  assumes "\<forall>p\<in>set others. \<forall>v\<in>set (bins p). length v = n" "length vec = n" "j < 10"
  shows "\<forall>v\<in>set (map (\<lambda>p. bins p ! j) others). length v = length vec"
  using assms by (simp add: all_set_conv_all_nth)

lemma vsum_length:
  assumes "\<forall>p\<in>set others. \<forall>v\<in>set (bins p). length v = n" "length vec = n" "j < 10"
  shows "length (vsum others j vec) = n"
  unfolding vsum_def using fold_map2_length [OF vsum_sized [OF assms]] assms(2) by simp

lemma vsum_nth:
  assumes "\<forall>p\<in>set others. \<forall>v\<in>set (bins p). length v = n" "length vec = n" "j < 10" "e < n"
  shows "vsum others j vec ! e = vec ! e + sum_list (map (\<lambda>p. bins p ! j ! e) others)"
  unfolding vsum_def
  using fold_map2_nth [OF vsum_sized [OF assms(1-3)], of e] assms(2,4) by (simp add: comp_def)

subsection \<open>The whole group\<close>

lemma collect_map:
  assumes "\<forall>x\<in>set xs. \<exists>y. f x = Inr y \<and> Q x y"
  shows "\<exists>ys. collect (map f xs) = Inr ys \<and> list_all2 Q xs ys"
  using assms
proof (induction xs)
  case Nil
  then show ?case by simp
next
  case (Cons x xs)
  then obtain y ys where "f x = Inr y" "Q x y" "collect (map f xs) = Inr ys" "list_all2 Q xs ys"
    by auto
  then show ?case by simp
qed

lemma block_sum_spec:
  assumes "j < NCOL"
  shows "block_sum b e j
       = sum_list (map (\<lambda>row. row ! j)
           (filter (\<lambda>row. entity_id row = int e) (rows_of (payload b))))"
proof -
  let ?t = "payload b"
  let ?m = "length ?t div NCOL"
  let ?g = "\<lambda>k. take NCOL (drop (k * NCOL) ?t)"
  have g: "?g k = rows_of ?t ! k" if "k < ?m" for k
    using that by (simp add: rows_of_def)
  have f: "filter (\<lambda>k. entity_id (?g k) = int e) [0..<?m]
             = filter (\<lambda>k. trunc (GET ?t k 0) = int e) [0..<?m]"
    by (rule filter_cong) (simp_all add: g rows_of_entity)
  have "sum_list (map (\<lambda>row. row ! j) (filter (\<lambda>row. entity_id row = int e) (rows_of ?t)))
          = sum_list (map (\<lambda>k. ?g k ! j) (filter (\<lambda>k. entity_id (?g k) = int e) [0..<?m]))"
    by (simp add: rows_of_def filter_map comp_def)
  also have "\<dots> = sum_list (map (\<lambda>k. GET ?t k j) (filter (\<lambda>k. trunc (GET ?t k 0) = int e) [0..<?m]))"
    unfolding f by (rule arg_cong [where f = sum_list], rule map_cong)
      (simp_all add: g rows_of_field [OF _ assms])
  finally show ?thesis by (simp add: block_sum_def row_sum_def)
qed

lemma spec_bin_sum_blocks:
  assumes "j < NCOL"
  shows "spec_bin_sum bl e j = sum_list (map (\<lambda>b. block_sum b e j) bl)"
  by (induction bl) (simp_all add: spec_bin_sum_def block_sum_spec [OF assms])

lemma sum_list_map_concat:
  "sum_list (map f (concat xss)) = sum_list (map (\<lambda>xs. sum_list (map f xs)) xss)"
  for f :: "'a \<Rightarrow> real"
  by (induction xss) simp_all

lemma slices_sum:
  fixes F :: "'a \<Rightarrow> real"
  assumes "1 \<le> W"
  shows "sum_list (map (\<lambda>rk. sum_list (map (\<lambda>i. F (bl ! i)) (slice_of bl W rk))) [0..<W])
       = sum_list (map F bl)"
proof -
  have "sum_list (map (\<lambda>rk. sum_list (map (\<lambda>i. F (bl ! i)) (slice_of bl W rk))) [0..<W])
          = sum_list (map (\<lambda>i. F (bl ! i)) (concat (map (slice_of bl W) [0..<W])))"
    by (simp add: sum_list_map_concat comp_def)
  also have "\<dots> = sum_list (map (\<lambda>i. F (bl ! i)) [0..<length bl])"
    by (simp only: slices_cover [OF assms])
  also have "map (\<lambda>i. F (bl ! i)) [0..<length bl] = map F bl"
    by (intro nth_equalityI) simp_all
  finally show ?thesis .
qed

lemma local_phase_bins:
  assumes n: "0 \<le> ntriangle st" "ntriangle st \<le> INT_MAX"
    and rk: "rank st < comm_size st"
    and wf: "\<forall>b\<in>set bl. wf_block b \<and> ids_in_range (ntriangle st) b"
  shows "\<exists>st'. local_phase OK bl st = Inr st' \<and> same_env st st'
           \<and> (\<forall>v\<in>set (bins st'). length v = nat (ntriangle st))
           \<and> (\<forall>j<10. \<forall>e<nat (ntriangle st).
                 bins st' ! j ! e = slice_sum bl (comm_size st) (rank st) j e)"
proof -
  let ?st0 = "st\<lparr>trace := trace st @ [ReaderBeginStep OK, DupBeginStep]\<rparr>"
  have "\<exists>st'. read_step bl ?st0 = Inr st' \<and> same_env ?st0 st'
           \<and> trace st' = trace ?st0
                @ concat (map (\<lambda>i. block_events (bl ! i)) (slice_of bl (comm_size ?st0) (rank ?st0)))
                @ [ReaderEndStep, DupEndStep]
           \<and> (\<forall>v\<in>set (bins st'). length v = nat (ntriangle ?st0))
           \<and> (\<forall>j<10. \<forall>e<nat (ntriangle ?st0). bins st' ! j ! e
                  = sum_list (map (\<lambda>i. block_sum (bl ! i) e (Suc j))
                      (slice_of bl (comm_size ?st0) (rank ?st0))))"
    by (rule read_step_bins) (use assms in simp_all)
  then obtain st' where "read_step bl ?st0 = Inr st'" "same_env ?st0 st'"
      "\<forall>v\<in>set (bins st'). length v = nat (ntriangle st)"
      "\<forall>j<10. \<forall>e<nat (ntriangle st). bins st' ! j ! e
                  = slice_sum bl (comm_size st) (rank st) j e"
    unfolding slice_sum_def by auto
  moreover from this(2) have "same_env st st'" by (simp add: same_env_def)
  ultimately show ?thesis by (auto simp: local_phase_def Let_def)
qed

lemma ready_step_bins:
  assumes grp: "group_of W n procs"
    and W: "1 \<le> W"
    and n: "0 \<le> n" "n \<le> INT_MAX"
    and ist: "istep (hd procs) < INT_MAX"
    and wf: "list_all wf_block block_list"
    and ids: "list_all (ids_in_range n) block_list"
  shows "\<exists>st'. ready_step block_list procs = Inr st'
           \<and> (\<forall>j<10. length (bins st' ! j) = nat n
                 \<and> (\<forall>e<nat n. bins st' ! j ! e = spec_bin_sum block_list e (Suc j)))"
proof -
  let ?bl = block_list
  have len: "length procs = W"
    and each: "rank (procs ! rk) = rk" "comm_size (procs ! rk) = W" "ntriangle (procs ! rk) = n"
    if "rk < W" for rk
    using grp that by (simp_all add: group_of_def list_all_iff)
  have lenp: "length procs = W" using grp by (simp add: group_of_def)
  have blocks: "\<forall>b\<in>set ?bl. wf_block b \<and> ids_in_range n b"
    using wf ids by (simp add: list_all_iff)
  have loc: "\<exists>st'. local_phase OK ?bl (procs ! rk) = Inr st' \<and> same_env (procs ! rk) st'
           \<and> (\<forall>v\<in>set (bins st'). length v = nat n)
           \<and> (\<forall>j<10. \<forall>e<nat n. bins st' ! j ! e = slice_sum ?bl W rk j e)"
    if "rk < W" for rk
    using local_phase_bins [of "procs ! rk" ?bl] each [OF that] n blocks that by simp
  define Q where "Q p y \<longleftrightarrow> (\<forall>v\<in>set (bins y). length v = nat n)
           \<and> (\<forall>j<10. \<forall>e<nat n. bins y ! j ! e = slice_sum ?bl W (rank p) j e)"
    for p :: Diffusion and y :: Diffusion
  have "\<forall>p\<in>set (tl procs). \<exists>y. local_phase OK ?bl p = Inr y \<and> Q p y"
  proof
    fix p assume "p \<in> set (tl procs)"
    then obtain i where i: "i < length (tl procs)" "p = tl procs ! i"
      by (auto simp: in_set_conv_nth)
    then have p: "p = procs ! Suc i" "Suc i < W"
      using lenp by (simp_all add: nth_tl)
    show "\<exists>y. local_phase OK ?bl p = Inr y \<and> Q p y"
      using loc [OF p(2)] each(1) [OF p(2)] unfolding Q_def p(1) by auto
  qed
  then obtain others where others: "collect (map (local_phase OK ?bl) (tl procs)) = Inr others"
      "list_all2 Q (tl procs) others"
    using collect_map [of "tl procs" "local_phase OK ?bl" Q] by blast
  have hd: "hd procs = procs ! 0" "0 < W"
    using W lenp by (cases procs; simp)+
  obtain st1 where st1: "local_phase OK ?bl (hd procs) = Inr st1" "same_env (hd procs) st1"
      "\<forall>v\<in>set (bins st1). length v = nat n"
      "\<forall>j<10. \<forall>e<nat n. bins st1 ! j ! e = slice_sum ?bl W 0 j e"
    using loc [OF hd(2)] unfolding hd(1) by blast
  have osz: "\<forall>p\<in>set others. \<forall>v\<in>set (bins p). length v = nat n"
  proof
    fix p assume "p \<in> set others"
    then obtain i where "i < length others" "p = others ! i"
      by (auto simp: in_set_conv_nth)
    then have "Q (tl procs ! i) p"
      using others(2) by (simp add: list_all2_conv_all_nth)
    then show "\<forall>v\<in>set (bins p). length v = nat n" by (simp add: Q_def)
  qed
  have r0: "rank st1 = 0" "istep st1 < INT_MAX"
    using st1(2) each(1) [OF hd(2)] ist by (simp_all add: same_env_def hd(1))
  obtain st' where st': "reduce_step others st1 = Inr st'"
      "\<forall>j<10. bins st' ! j = vsum others j (bins st1 ! j)"
    using reduce_step_root [OF r0(1) st1(3) osz r0(2)] by blast
  have run: "ready_step ?bl procs = Inr st'"
    by (simp add: ready_step_def others(1) step_def st1(1) st'(1))
  have goal: "length (bins st' ! j) = nat n
      \<and> (\<forall>e<nat n. bins st' ! j ! e = spec_bin_sum ?bl e (Suc j))" if j: "j < 10" for j
  proof -
    have l1: "length (bins st1 ! j) = nat n"
      using st1(3) j by (simp add: all_set_conv_all_nth)
    have a: "length (bins st' ! j) = nat n"
      using vsum_length [OF osz l1 j] st'(2) j by simp
    have b: "bins st' ! j ! e = spec_bin_sum ?bl e (Suc j)" if e: "e < nat n" for e
    proof -
      have m: "map (\<lambda>p. bins p ! j ! e) others = map (\<lambda>rk. slice_sum ?bl W rk j e) [1..<W]"
      proof (rule nth_equalityI)
        show "length (map (\<lambda>p. bins p ! j ! e) others)
                = length (map (\<lambda>rk. slice_sum ?bl W rk j e) [1..<W])"
          using others(2) lenp by (simp add: list_all2_lengthD [symmetric])
      next
        fix i assume "i < length (map (\<lambda>p. bins p ! j ! e) others)"
        then have i: "i < length others" by simp
        then have iW: "Suc i < W"
          using others(2) lenp by (simp add: list_all2_lengthD [symmetric])
        have "Q (tl procs ! i) (others ! i)"
          using others(2) i by (simp add: list_all2_conv_all_nth)
        moreover have "tl procs ! i = procs ! Suc i"
          using iW lenp by (simp add: nth_tl)
        ultimately have "bins (others ! i) ! j ! e = slice_sum ?bl W (Suc i) j e"
          using j e each(1) [OF iW] by (simp add: Q_def)
        moreover have "[1..<W] ! i = Suc i"
          using iW by (subst nth_upt) simp_all
        ultimately show "map (\<lambda>p. bins p ! j ! e) others ! i
                     = map (\<lambda>rk. slice_sum ?bl W rk j e) [1..<W] ! i"
          using i iW by simp
      qed
      have up: "[0..<W] = 0 # [1..<W]"
        using hd(2) by (simp add: upt_conv_Cons)
      have "bins st' ! j ! e = bins st1 ! j ! e + sum_list (map (\<lambda>p. bins p ! j ! e) others)"
        using vsum_nth [OF osz l1 j e] st'(2) j by simp
      also have "\<dots> = sum_list (map (\<lambda>rk. slice_sum ?bl W rk j e) [0..<W])"
        using st1(4) j e by (simp add: m up)
      also have "\<dots> = sum_list (map (\<lambda>b. block_sum b e (Suc j)) ?bl)"
        unfolding slice_sum_def by (rule slices_sum [OF W])
      also have "\<dots> = spec_bin_sum ?bl e (Suc j)"
        using j by (simp add: spec_bin_sum_blocks NCOL_def)
      finally show ?thesis .
    qed
    show ?thesis using a b by simp
  qed
  show ?thesis using run goal by blast
qed

text \<open>
  Claim C1. Take a Ready step of a group of \<open>W \<ge> 1\<close> ranks that share the triangle
  count \<open>n\<close>, on blocks whose payload has the size their \<open>Count\<close> says, a size that
  fits \<open>int\<close>, and whose rows name entities below \<open>n\<close>. Then the step of the coordinator
  succeeds, and after the local accumulation of every rank and the ten sum-reductions
  each of its ten bin sequences has \<open>n\<close> entries and holds at \<open>e\<close> the sum, over all rows
  of all blocks of the step whose leading entity id is \<open>e\<close>, of the field of that
  sequence (column \<open>j + 1\<close> for the sequence \<open>bins ! j\<close>). Rows of one entity add up,
  none overwrites another. Sums are sums of exact reals.
\<close>

theorem ready_step_sums:
  assumes "group_of W n procs"
    and "1 \<le> W"
    and "0 \<le> n" "n \<le> INT_MAX"
    and "istep (hd procs) < INT_MAX"
    and "list_all wf_block block_list"
    and "list_all (ids_in_range n) block_list"
  shows "\<exists>st'. ready_step block_list procs = Inr st'
           \<and> (\<forall>j<10. length (bins st' ! j) = nat n
                 \<and> (\<forall>e<nat n. bins st' ! j ! e = spec_bin_sum block_list e (Suc j)))"
  using assms by (rule ready_step_bins)

section \<open>The diffusion pipeline: the persisted output\<close>

lemma add_at_length: "add_at v i x = Inr v' \<Longrightarrow> length v' = length v"
  by (auto simp: add_at_def split: if_splits)

lemma add_row_sized:
  assumes "add_row table k st = Inr st'" and "\<forall>v\<in>set (bins st). length v = n"
  shows "\<forall>v\<in>set (bins st'). length v = n"
  using assms unfolding add_row_def
  by (auto simp: and_then_eq_Inr bins_def dest!: add_at_length split: if_splits)

lemma read_block_sized:
  assumes "read_block b st = Inr st'" and "\<forall>v\<in>set (bins st). length v = n"
  shows "\<forall>v\<in>set (bins st'). length v = n"
proof -
  let ?t = "if 0 < block_ncount (Count b) then payload b else []"
  let ?st1 = "if 0 < block_ncount (Count b)
              then st\<lparr>trace := trace st @ [ReaderGet (BlockID b), ReaderPerformGets, DupPut ?t]\<rparr>
              else st"
  have b: "bins ?st1 = bins st" by (simp add: bins_def)
  have "for_each [0..<nat (to_int32 (int (length ?t div NCOL)))] (add_row ?t) ?st1 = Inr st'"
    using assms(1) unfolding read_block_def Let_def .
  then show ?thesis
  proof (rule for_each_invariant)
    show "\<forall>v\<in>set (bins ?st1). length v = n" unfolding b by (rule assms(2))
  next
    fix k a c
    assume "\<forall>v\<in>set (bins a). length v = n" "add_row ?t k a = Inr c"
    then show "\<forall>v\<in>set (bins c). length v = n" using add_row_sized by blast
  qed
qed

lemma read_step_sized:
  assumes "read_step bl st = Inr st'"
  shows "\<forall>v\<in>set (bins st'). length v = nat (ntriangle st)"
proof -
  from assms obtain st1 st2 where r: "reset st = Inr st1"
    and l: "for_each (slice_of bl (comm_size st1) (rank st1))
              (\<lambda>i s. if i < length bl then read_block (bl ! i) s else Inl OutOfBounds) st1 = Inr st2"
    and e: "st' = st2\<lparr>trace := trace st2 @ [ReaderEndStep, DupEndStep]\<rparr>"
    unfolding read_step_def Let_def slice_of_def by (auto simp: and_then_eq_Inr)
  have z: "\<forall>v\<in>set (bins st1). length v = nat (ntriangle st)"
    using reset_zero [OF r] by simp
  have "\<forall>v\<in>set (bins st2). length v = nat (ntriangle st)"
    using l
  proof (rule for_each_invariant)
    show "\<forall>v\<in>set (bins st1). length v = nat (ntriangle st)" by (rule z)
  next
    fix i a c
    assume "\<forall>v\<in>set (bins a). length v = nat (ntriangle st)"
      "(if i < length bl then read_block (bl ! i) a else Inl OutOfBounds) = Inr c"
    then show "\<forall>v\<in>set (bins c). length v = nat (ntriangle st)"
      using read_block_sized [of "bl ! i" a c] by (auto split: if_splits)
  qed
  then show ?thesis by (simp add: e bins_def)
qed

lemma vec_reduce_length: "vec_reduce rk os vec = Inr v \<Longrightarrow> length v = length vec"
  by (auto simp: vec_reduce_def list_all_iff fold_map2_length split: if_splits)

lemma reduce_step_sized:
  assumes "reduce_step others st = Inr st'" and "\<forall>v\<in>set (bins st). length v = n"
  shows "\<forall>v\<in>set (bins st'). length v = n"
proof -
  from assms(1) obtain v1 v2 v3 v4 v5 v6 v7 v8 v9 v10 where
    v: "vec_reduce (rank st) (map i_dr_avg others) (i_dr_avg st) = Inr v1"
       "vec_reduce (rank st) (map i_dr_squared_average others) (i_dr_squared_average st) = Inr v2"
       "vec_reduce (rank st) (map i_dE_avg others) (i_dE_avg st) = Inr v3"
       "vec_reduce (rank st) (map i_dE_squared_average others) (i_dE_squared_average st) = Inr v4"
       "vec_reduce (rank st) (map i_marker_den others) (i_marker_den st) = Inr v5"
       "vec_reduce (rank st) (map e_dr_avg others) (e_dr_avg st) = Inr v6"
       "vec_reduce (rank st) (map e_dr_squared_average others) (e_dr_squared_average st) = Inr v7"
       "vec_reduce (rank st) (map e_dE_avg others) (e_dE_avg st) = Inr v8"
       "vec_reduce (rank st) (map e_dE_squared_average others) (e_dE_squared_average st) = Inr v9"
       "vec_reduce (rank st) (map e_marker_den others) (e_marker_den st) = Inr v10"
    and st': "(let st1 = st\<lparr>i_dr_avg := v1, i_dr_squared_average := v2, i_dE_avg := v3,
                     i_dE_squared_average := v4, i_marker_den := v5,
                     e_dr_avg := v6, e_dr_squared_average := v7, e_dE_avg := v8,
                     e_dE_squared_average := v9, e_marker_den := v10,
                     trace := trace st @ replicate 10 MpiReduce\<rparr>;
           st2 = (if rank st1 = 0 then output st1 else st1)
       in if istep st2 < INT_MAX then Inr (st2\<lparr>istep := istep st2 + 1\<rparr>)
          else Inl IntOverflow) = Inr st'"
    unfolding reduce_step_def and_then_eq_Inr by blast
  let ?st1 = "st\<lparr>i_dr_avg := v1, i_dr_squared_average := v2, i_dE_avg := v3,
                     i_dE_squared_average := v4, i_marker_den := v5,
                     e_dr_avg := v6, e_dr_squared_average := v7, e_dE_avg := v8,
                     e_dE_squared_average := v9, e_marker_den := v10,
                     trace := trace st @ replicate 10 MpiReduce\<rparr>"
  have b1: "bins ?st1 = [v1, v2, v3, v4, v5, v6, v7, v8, v9, v10]" by (simp add: bins_def)
  have "bins st' = bins ?st1"
    using st' output_frame [of ?st1] unfolding Let_def
    by (auto simp: bins_def split: if_splits)
  moreover have "\<forall>v\<in>set [v1, v2, v3, v4, v5, v6, v7, v8, v9, v10]. length v = n"
    using v [THEN vec_reduce_length] assms(2) by (simp add: bins_def)
  ultimately show ?thesis unfolding b1 by simp
qed

lemma step_OK_sized:
  assumes "step OK bl others st = Inr st'"
  shows "\<forall>v\<in>set (bins st'). length v = nat (ntriangle st)"
proof -
  let ?st0 = "st\<lparr>trace := trace st @ [ReaderBeginStep OK, DupBeginStep]\<rparr>"
  from assms obtain st1 where l: "read_step bl ?st0 = Inr st1" and r: "reduce_step others st1 = Inr st'"
    by (auto simp: step_def local_phase_def Let_def and_then_eq_Inr)
  have "\<forall>v\<in>set (bins st1). length v = nat (ntriangle st)"
    using read_step_sized [OF l] by simp
  then show ?thesis by (rule reduce_step_sized [OF r])
qed

lemma declare_layout_events: "declare_layout n = layout_events n"
  by (simp add: declare_layout_def layout_events_def bin_names_def)

lemma write_step_events: "write_step st = step_events (bins st)"
  by (simp add: write_step_def step_events_def bin_names_def bins_def)


lemma step_persisted:
  assumes "step status bl others st = Inr st'"
  shows "rank st' = rank st \<and> ntriangle st' = ntriangle st
       \<and> first st' = (first st \<and> \<not> (status = OK \<and> rank st = 0))
       \<and> filter sink_event (trace st')
           = filter sink_event (trace st)
             @ (if status = OK \<and> rank st = 0
                then (if first st then layout_events (nat (ntriangle st mod 2 ^ 64)) else [])
                     @ step_events (bins st')
                else [])"
proof (cases "status = OK")
  case True
  then show ?thesis
    using step_OK_frame [of bl others st st'] assms
    by (simp add: declare_layout_events [symmetric] write_step_events [symmetric])
next
  case False
  then show ?thesis using step_not_OK [of status bl others st] assms by auto
qed

lemma run_persisted:
  assumes "run calls st = Inr st'" "rank st = 0"
  shows "\<exists>bss. length bss = length (filter (\<lambda>c. fst c = OK) calls)
           \<and> (\<forall>bs\<in>set bss. length bs = 10 \<and> (\<forall>v\<in>set bs. length v = nat (ntriangle st)))
           \<and> first st' = (first st \<and> bss = [])
           \<and> rank st' = 0 \<and> ntriangle st' = ntriangle st
           \<and> filter sink_event (trace st')
               = filter sink_event (trace st)
                 @ (if first st \<and> bss \<noteq> [] then layout_events (nat (ntriangle st mod 2 ^ 64)) else [])
                 @ concat (map step_events bss)"
  using assms
proof (induction calls arbitrary: st)
  case Nil
  then show ?case by (simp add: run_def)
next
  case (Cons c calls)
  obtain status bl others where c: "c = (status, bl, others)" by (cases c) auto
  from Cons.prems obtain a where a: "step status bl others st = Inr a" and rest: "run calls a = Inr st'"
    by (auto simp: run_def c and_then_eq_Inr)
  note sa = step_persisted [OF a]
  from sa have ra: "rank a = 0" using Cons.prems(2) by simp
  obtain bss where bss: "length bss = length (filter (\<lambda>c. fst c = OK) calls)"
      "\<forall>bs\<in>set bss. length bs = 10 \<and> (\<forall>v\<in>set bs. length v = nat (ntriangle a))"
      "first st' = (first a \<and> bss = [])" "rank st' = 0" "ntriangle st' = ntriangle a"
      "filter sink_event (trace st')
         = filter sink_event (trace a)
           @ (if first a \<and> bss \<noteq> [] then layout_events (nat (ntriangle a mod 2 ^ 64)) else [])
           @ concat (map step_events bss)"
    using Cons.IH [OF rest ra] by blast
  show ?case
  proof (cases "status = OK")
    case True
    have "length (bins a) = 10" by (simp add: bins_def)
    moreover have "\<forall>v\<in>set (bins a). length v = nat (ntriangle st)"
      using step_OK_sized [of bl others st a] a True by simp
    ultimately show ?thesis
      by (intro exI [of _ "bins a # bss"]) (use sa bss True Cons.prems(2) in \<open>simp add: c\<close>)
  next
    case False
    show ?thesis
      by (rule exI [of _ bss]) (use sa bss False in \<open>simp add: c\<close>)
  qed
qed

text \<open>
  Claim C7. What a call of \<open>Diffusion::step\<close> adds to the persisted output: nothing
  unless the status is \<open>OK\<close> and the rank is 0; then, while the static flag is set, the
  declaration of the layout (the io object, ten variables of \<open>ntriangle\<close> elements
  under the names of the bins, the opening of the writer), and in every case one step:
  \<open>BeginStep\<close>, one \<open>Put\<close> for each of the ten bins as the call leaves them, \<open>EndStep\<close>.
  Only such a call clears the flag. Over any run of rank 0 that starts from the
  constructor, the events on the persisted output are therefore: the declaration of
  the layout, once and before anything is written, if the static flag was set at
  construction and some call was Ready; then one written step for each Ready call,
  each holding ten sequences of \<open>ntriangle\<close> values. The flag is set after the run only
  if it was set before and no call was Ready, so an object that is constructed in a
  process where a step has been written declares nothing.
\<close>

theorem output_layout_once:
  "(\<forall>st'. step status bl others st = Inr st' \<longrightarrow>
       first st' = (first st \<and> \<not> (status = OK \<and> rank st = 0))
     \<and> filter sink_event (trace st')
         = filter sink_event (trace st)
           @ (if status = OK \<and> rank st = 0
              then (if first st then layout_events (nat (ntriangle st mod 2 ^ 64)) else [])
                   @ step_events (bins st')
              else []))
   \<and> (\<forall>st0 st'. Diffusion_new out_first 0 W n_t = Inr st0 \<and> run calls st0 = Inr st' \<longrightarrow>
        (\<exists>bss. length bss = length (filter (\<lambda>c. fst c = OK) calls)
           \<and> (\<forall>bs\<in>set bss. length bs = 10 \<and> (\<forall>v\<in>set bs. length v = nat n_t))
           \<and> first st' = (out_first \<and> bss = [])
           \<and> filter sink_event (trace st')
               = (if out_first \<and> bss \<noteq> [] then layout_events (nat (n_t mod 2 ^ 64)) else [])
                 @ concat (map step_events bss)))"
proof (intro conjI allI impI)
  fix st' assume a: "step status bl others st = Inr st'"
  show "first st' = (first st \<and> \<not> (status = OK \<and> rank st = 0))"
    using step_persisted [OF a] by simp
  show "filter sink_event (trace st')
         = filter sink_event (trace st)
           @ (if status = OK \<and> rank st = 0
              then (if first st then layout_events (nat (ntriangle st mod 2 ^ 64)) else [])
                   @ step_events (bins st')
              else [])"
    using step_persisted [OF a] by simp
next
  fix st0 st' assume a: "Diffusion_new out_first 0 W n_t = Inr st0 \<and> run calls st0 = Inr st'"
  then have st0: "rank st0 = 0" "first st0 = out_first" "trace st0 = []" "ntriangle st0 = n_t"
    by (auto simp: Diffusion_new_def reset_def Let_def split: if_splits)
  from a have r: "run calls st0 = Inr st'" by simp
  obtain bss where bss: "length bss = length (filter (\<lambda>c. fst c = OK) calls)"
    "\<forall>bs\<in>set bss. length bs = 10 \<and> (\<forall>v\<in>set bs. length v = nat (ntriangle st0))"
    "first st' = (first st0 \<and> bss = [])"
    "filter sink_event (trace st')
       = filter sink_event (trace st0)
         @ (if first st0 \<and> bss \<noteq> [] then layout_events (nat (ntriangle st0 mod 2 ^ 64)) else [])
         @ concat (map step_events bss)"
    using run_persisted [OF r st0(1)] by blast
  have "filter sink_event (trace st')
          = (if out_first \<and> bss \<noteq> [] then layout_events (nat (n_t mod 2 ^ 64)) else [])
            @ concat (map step_events bss)"
    unfolding bss(4) st0 by simp
  then show "\<exists>bss. length bss = length (filter (\<lambda>c. fst c = OK) calls)
           \<and> (\<forall>bs\<in>set bss. length bs = 10 \<and> (\<forall>v\<in>set bs. length v = nat n_t))
           \<and> first st' = (out_first \<and> bss = [])
           \<and> filter sink_event (trace st')
               = (if out_first \<and> bss \<noteq> [] then layout_events (nat (n_t mod 2 ^ 64)) else [])
                 @ concat (map step_events bss)"
    using bss(1,2,3) unfolding st0 by blast
qed

section \<open>The diffusion pipeline on concrete input\<close>

lemma upt_2: "[0..<2] = [0, Suc 0]"
  by (simp add: numeral_2_eq_2)

lemma ex_rows:
  "rows_of (payload ex_b0) = [[0, 1, 2, 3, 4, 5, 6, 7, 8, 9, 10]]"
  "rows_of (payload ex_b1) = [[1, 1, 1, 1, 1, 1, 1, 1, 1, 1, 1],
                               [0, 10, 20, 30, 40, 50, 60, 70, 80, 90, 100]]"
  by (simp_all add: rows_of_def ex_b0_def ex_b1_def NCOL_def upt_2)

lemma ex_wf: "list_all wf_block [ex_b0, ex_b1]"
  by (simp add: wf_block_def ex_b0_def ex_b1_def INT_MAX_def)

lemma ex_ids: "list_all (ids_in_range 2) [ex_b0, ex_b1]"
  by (simp add: ids_in_range_def ex_rows entity_id_def trunc_def)

lemma ex_group2: "group_of 2 2 [ex_st 0 2, ex_st 1 2]"
  by (simp add: group_of_def ex_st_def upt_2)

lemma ex_spec:
  "spec_bin_sum [ex_b0, ex_b1] 0 (Suc 0) = 11" "spec_bin_sum [ex_b0, ex_b1] (Suc 0) (Suc 0) = 1"
  "spec_bin_sum [ex_b0, ex_b1] 0 10 = 110" "spec_bin_sum [ex_b0, ex_b1] (Suc 0) 10 = 1"
  by (simp_all add: spec_bin_sum_def ex_rows entity_id_def trunc_def)

lemma list_2: "length xs = 2 \<Longrightarrow> xs = [xs ! 0, xs ! Suc 0]"
  by (cases xs; cases "tl xs"; simp)

lemma upt_10: "[0..<10] = [0, Suc 0, 2, 3, 4, 5, 6, 7, 8, 9]"
  by (simp add: upt_rec)

lemma ex_spec_all:
  "map (\<lambda>j. map (\<lambda>e. spec_bin_sum [ex_b0, ex_b1] e (Suc j)) [0..<2]) [0..<10]
     = [[11, 1], [22, 1], [33, 1], [44, 1], [55, 1], [66, 1], [77, 1], [88, 1], [99, 1], [110, 1]]"
  unfolding upt_10 upt_2
  by (simp add: spec_bin_sum_def ex_rows entity_id_def trunc_def)

theorem ready_step_sums_witness:
  "\<exists>st'. ready_step [ex_b0, ex_b1] [ex_st 0 2, ex_st 1 2] = Inr st'
     \<and> i_dr_avg st' = [11, 1] \<and> e_marker_den st' = [110, 1]"
proof -
  have "istep (hd [ex_st 0 2, ex_st 1 2]) < INT_MAX"
    by (simp add: ex_st_def INT_MAX_def)
  then obtain st' where s: "ready_step [ex_b0, ex_b1] [ex_st 0 2, ex_st 1 2] = Inr st'"
    and b: "\<forall>j<10. length (bins st' ! j) = nat 2
                 \<and> (\<forall>e<nat 2. bins st' ! j ! e = spec_bin_sum [ex_b0, ex_b1] e (Suc j))"
    using ready_step_sums [of 2 2 "[ex_st 0 2, ex_st 1 2]" "[ex_b0, ex_b1]", OF ex_group2 _ _ _ _ ex_wf ex_ids]
    by (auto simp: INT_MAX_def)
  have "length (bins st' ! 0) = 2" "bins st' ! 0 ! 0 = 11" "bins st' ! 0 ! Suc 0 = 1"
    using b [rule_format, of 0] ex_spec by simp_all
  then have "bins st' ! 0 = [11, 1]"
    using list_2 [of "bins st' ! 0"] by simp
  moreover have "length (bins st' ! 9) = 2" "bins st' ! 9 ! 0 = 110" "bins st' ! 9 ! Suc 0 = 1"
    using b [rule_format, of 9] ex_spec by simp_all
  then have "bins st' ! 9 = [110, 1]"
    using list_2 [of "bins st' ! 9"] by simp
  ultimately show ?thesis using s by (simp add: bins_nth)
qed

lemma ready_step_single: "ready_step bl [p] = step OK bl [] p"
  by (simp add: ready_step_def)

lemma ex_step_any:
  assumes "rank b = 0" "comm_size b = 1" "ntriangle b = 2" "istep b < INT_MAX"
  shows "\<exists>b'. step OK [ex_b0, ex_b1] [] b = Inr b'"
proof -
  have g: "group_of 1 2 [b]" using assms by (simp add: group_of_def)
  have i: "istep (hd [b]) < INT_MAX" using assms by simp
  have "\<exists>st'. ready_step [ex_b0, ex_b1] [b] = Inr st'
           \<and> (\<forall>j<10. length (bins st' ! j) = nat 2
                 \<and> (\<forall>e<nat 2. bins st' ! j ! e = spec_bin_sum [ex_b0, ex_b1] e (Suc j)))"
    by (rule ready_step_bins [OF g _ _ _ i ex_wf ex_ids]) (simp_all add: INT_MAX_def)
  then show ?thesis unfolding ready_step_single by blast
qed

lemma ex_run:
  assumes "rank b = 0" "comm_size b = 1" "ntriangle b = 2" "istep b = 0"
  shows "\<exists>b'. run ex_calls b = Inr b'"
proof -
  obtain b1 where b1: "step OK [ex_b0, ex_b1] [] b = Inr b1"
    using ex_step_any [of b] assms by (auto simp: INT_MAX_def)
  note f1 = step_OK_frame [OF b1]
  let ?b2 = "b1\<lparr>trace := trace b1 @ [ReaderBeginStep NotReady, DupBeginStep]\<rparr>"
  have b2: "step NotReady [] [] b1 = Inr ?b2" by (simp add: step_not_OK)
  obtain b3 where b3: "step OK [ex_b0, ex_b1] [] ?b2 = Inr b3"
    using ex_step_any [of ?b2] f1 assms by (auto simp: INT_MAX_def)
  show ?thesis by (simp add: run_def ex_calls_def b1 b2 b3)
qed

theorem ready_step_twice_witness:
  "\<exists>st1 st2. step OK [ex_b0, ex_b1] [] (ex_solo) = Inr st1
     \<and> step OK [ex_b0, ex_b1] [] st1 = Inr st2 \<and> bins st2 = bins st1"
proof -
  obtain st1 where st1: "step OK [ex_b0, ex_b1] [] (ex_solo) = Inr st1"
    using ex_step_any [of "ex_solo"] by (auto simp: ex_solo_def ex_st_def INT_MAX_def)
  have "istep st1 < INT_MAX"
    using step_OK_frame [OF st1] by (simp add: ex_solo_def ex_st_def INT_MAX_def)
  then show ?thesis using ready_step_twice [OF st1, THEN conjunct1] st1 by blast
qed

theorem dup_stream_step_witness:
  "(\<exists>st'. step NotReady [ex_b0, ex_b1] [] (ex_solo) = Inr st'
       \<and> filter dup_event (trace st') = [DupBeginStep])
   \<and> (\<exists>st' puts. step OK [ex_b0, ex_b1] [] (ex_solo) = Inr st'
       \<and> list_all is_DupPut puts
       \<and> filter dup_event (trace st') = [DupBeginStep] @ puts @ [DupEndStep])"
proof -
  obtain st1 where st1: "step OK [ex_b0, ex_b1] [] (ex_solo) = Inr st1"
    using ex_step_any [of "ex_solo"] by (auto simp: ex_solo_def ex_st_def INT_MAX_def)
  have t: "trace ex_solo = []" by (simp add: ex_solo_def ex_st_def)
  have "\<exists>st'. step NotReady [ex_b0, ex_b1] [] (ex_solo) = Inr st'
       \<and> filter dup_event (trace st') = [DupBeginStep]"
    using dup_stream_step [of NotReady "[ex_b0, ex_b1]" "[]" "ex_solo"] by (simp add: t)
  moreover have "\<exists>puts. list_all is_DupPut puts
       \<and> filter dup_event (trace st1) = [DupBeginStep] @ puts @ [DupEndStep]"
    using dup_stream_step [of OK "[ex_b0, ex_b1]" "[]" "ex_solo"] st1 by (simp add: t)
  ultimately show ?thesis using st1 by blast
qed

lemma ex_bins:
  assumes "step OK [ex_b0, ex_b1] [] b = Inr b'"
    and "rank b = 0" "comm_size b = 1" "ntriangle b = 2" "istep b < INT_MAX"
  shows "bins b'
     = [[11, 1], [22, 1], [33, 1], [44, 1], [55, 1], [66, 1], [77, 1], [88, 1], [99, 1], [110, 1]]"
proof -
  have g: "group_of 1 2 [b]" using assms by (simp add: group_of_def)
  have i: "istep (hd [b]) < INT_MAX" using assms by simp
  have "\<exists>st'. ready_step [ex_b0, ex_b1] [b] = Inr st'
           \<and> (\<forall>j<10. length (bins st' ! j) = nat 2
                 \<and> (\<forall>e<nat 2. bins st' ! j ! e = spec_bin_sum [ex_b0, ex_b1] e (Suc j)))"
    by (rule ready_step_bins [OF g _ _ _ i ex_wf ex_ids]) (simp_all add: INT_MAX_def)
  then have v: "\<forall>j<10. length (bins b' ! j) = 2
                 \<and> (\<forall>e<2. bins b' ! j ! e = spec_bin_sum [ex_b0, ex_b1] e (Suc j))"
    unfolding ready_step_single assms(1) by simp
  have "bins b' = map (\<lambda>j. map (\<lambda>e. spec_bin_sum [ex_b0, ex_b1] e (Suc j)) [0..<2]) [0..<10]"
  proof (rule nth_equalityI)
    show "length (bins b')
        = length (map (\<lambda>j. map (\<lambda>e. spec_bin_sum [ex_b0, ex_b1] e (Suc j)) [0..<2]) [0..<10])"
      by (simp add: bins_def)
  next
    fix j assume "j < length (bins b')"
    then have j: "j < 10" by (simp add: bins_def)
    have "bins b' ! j = map (\<lambda>e. spec_bin_sum [ex_b0, ex_b1] e (Suc j)) [0..<2]"
      by (rule nth_equalityI) (use v j in simp_all)
    then show "bins b' ! j
        = map (\<lambda>j. map (\<lambda>e. spec_bin_sum [ex_b0, ex_b1] e (Suc j)) [0..<2]) [0..<10] ! j"
      using j by simp
  qed
  then show ?thesis unfolding ex_spec_all .
qed

theorem output_layout_once_witness:
  "\<exists>st0 st'. Diffusion_new True 0 1 2 = Inr st0 \<and> run ex_calls st0 = Inr st'
     \<and> filter sink_event (trace st')
       = [DeclareIO ''diffusion'',
          DefineVariable ''i_dr_avg'' 2, DefineVariable ''i_dr_squared_average'' 2,
          DefineVariable ''i_dE_avg'' 2, DefineVariable ''i_dE_squared_average'' 2,
          DefineVariable ''i_marker_den'' 2,
          DefineVariable ''e_dr_avg'' 2, DefineVariable ''e_dr_squared_average'' 2,
          DefineVariable ''e_dE_avg'' 2, DefineVariable ''e_dE_squared_average'' 2,
          DefineVariable ''e_marker_den'' 2,
          OpenWriter ''xgc.diffusion.bp'',
          WriterBeginStep,
          WriterPut ''i_dr_avg'' [11, 1], WriterPut ''i_dr_squared_average'' [22, 1],
          WriterPut ''i_dE_avg'' [33, 1], WriterPut ''i_dE_squared_average'' [44, 1],
          WriterPut ''i_marker_den'' [55, 1],
          WriterPut ''e_dr_avg'' [66, 1], WriterPut ''e_dr_squared_average'' [77, 1],
          WriterPut ''e_dE_avg'' [88, 1], WriterPut ''e_dE_squared_average'' [99, 1],
          WriterPut ''e_marker_den'' [110, 1],
          WriterEndStep,
          WriterBeginStep,
          WriterPut ''i_dr_avg'' [11, 1], WriterPut ''i_dr_squared_average'' [22, 1],
          WriterPut ''i_dE_avg'' [33, 1], WriterPut ''i_dE_squared_average'' [44, 1],
          WriterPut ''i_marker_den'' [55, 1],
          WriterPut ''e_dr_avg'' [66, 1], WriterPut ''e_dr_squared_average'' [77, 1],
          WriterPut ''e_dE_avg'' [88, 1], WriterPut ''e_dE_squared_average'' [99, 1],
          WriterPut ''e_marker_den'' [110, 1],
          WriterEndStep]
     \<and> (\<exists>bss. length bss = 2
           \<and> filter sink_event (trace st') = layout_events 2 @ concat (map step_events bss))"
proof -
  obtain st0 where st0: "Diffusion_new True 0 1 2 = Inr st0"
    by (simp add: Diffusion_new_def reset_def Let_def)
  then have f: "rank st0 = 0" "comm_size st0 = 1" "ntriangle st0 = 2" "istep st0 = 0"
    "first st0" "trace st0 = []"
    by (auto simp: Diffusion_new_def reset_def Let_def)
  obtain b1 where b1: "step OK [ex_b0, ex_b1] [] st0 = Inr b1"
    using ex_step_any [of st0] f by (auto simp: INT_MAX_def)
  note f1 = step_OK_frame [OF b1]
  let ?b2 = "b1\<lparr>trace := trace b1 @ [ReaderBeginStep NotReady, DupBeginStep]\<rparr>"
  have b2: "step NotReady [] [] b1 = Inr ?b2" by (simp add: step_not_OK)
  have f2: "rank ?b2 = 0" "comm_size ?b2 = 1" "ntriangle ?b2 = 2" "istep ?b2 < INT_MAX"
    using f1 f by (simp_all add: INT_MAX_def)
  obtain b3 where b3: "step OK [ex_b0, ex_b1] [] ?b2 = Inr b3"
    using ex_step_any [OF f2] by blast
  have r: "run ex_calls st0 = Inr b3"
    by (simp add: run_def ex_calls_def b1 b2 b3)
  have i0: "istep st0 < INT_MAX" using f by (simp add: INT_MAX_def)
  note v1 = ex_bins [OF b1 f(1-3) i0]
  note v3 = ex_bins [OF b3 f2]
  note t1 = output_layout_once [of OK "[ex_b0, ex_b1]" "[]" st0, THEN conjunct1, rule_format, OF b1]
  note t2 = output_layout_once [of NotReady "[]" "[]" b1, THEN conjunct1, rule_format, OF b2]
  note t3 = output_layout_once [of OK "[ex_b0, ex_b1]" "[]" ?b2, THEN conjunct1, rule_format, OF b3]
  have e1: "filter sink_event (trace b1) = layout_events 2 @ step_events (bins b1)"
    and n1: "\<not> first b1"
    using t1 f by simp_all
  have e2: "filter sink_event (trace ?b2) = filter sink_event (trace b1)"
    using t2 by simp
  have n2: "\<not> first ?b2" using n1 by simp
  have e3: "filter sink_event (trace b3) = filter sink_event (trace ?b2) @ step_events (bins b3)"
    using t3 f2(1) n2 by simp
  have lit: "filter sink_event (trace b3) = layout_events 2 @ step_events (bins b1) @ step_events (bins b3)"
    unfolding e3 e2 e1 by simp
  have h: "Diffusion_new True 0 1 2 = Inr st0 \<and> run ex_calls st0 = Inr b3"
    using st0 r by simp
  have "\<exists>bss. length bss = length (filter (\<lambda>c. fst c = OK) ex_calls)
      \<and> (\<forall>bs\<in>set bss. length bs = 10 \<and> (\<forall>v\<in>set bs. length v = nat 2))
      \<and> first b3 = (True \<and> bss = [])
      \<and> filter sink_event (trace b3)
         = (if True \<and> bss \<noteq> [] then layout_events (nat (2 mod 2 ^ 64)) else [])
           @ concat (map step_events bss)"
    by (rule output_layout_once [of OK "[]" "[]" st0 True 1 2 ex_calls, THEN conjunct2, rule_format, OF h])
  then obtain bss where "length bss = length (filter (\<lambda>c. fst c = OK) ex_calls)"
      "filter sink_event (trace b3)
         = (if True \<and> bss \<noteq> [] then layout_events (nat (2 mod 2 ^ 64)) else [])
           @ concat (map step_events bss)"
    by blast
  then have "length bss = 2"
    "filter sink_event (trace b3) = layout_events 2 @ concat (map step_events bss)"
    by (auto simp: ex_calls_def)
  then have run2: "\<exists>bss. length bss = 2
           \<and> filter sink_event (trace b3) = layout_events 2 @ concat (map step_events bss)"
    by blast
  have litv: "filter sink_event (trace b3)
     = [DeclareIO ''diffusion'',
        DefineVariable ''i_dr_avg'' 2, DefineVariable ''i_dr_squared_average'' 2,
        DefineVariable ''i_dE_avg'' 2, DefineVariable ''i_dE_squared_average'' 2,
        DefineVariable ''i_marker_den'' 2,
        DefineVariable ''e_dr_avg'' 2, DefineVariable ''e_dr_squared_average'' 2,
        DefineVariable ''e_dE_avg'' 2, DefineVariable ''e_dE_squared_average'' 2,
        DefineVariable ''e_marker_den'' 2,
        OpenWriter ''xgc.diffusion.bp'',
        WriterBeginStep,
        WriterPut ''i_dr_avg'' [11, 1], WriterPut ''i_dr_squared_average'' [22, 1],
        WriterPut ''i_dE_avg'' [33, 1], WriterPut ''i_dE_squared_average'' [44, 1],
        WriterPut ''i_marker_den'' [55, 1],
        WriterPut ''e_dr_avg'' [66, 1], WriterPut ''e_dr_squared_average'' [77, 1],
        WriterPut ''e_dE_avg'' [88, 1], WriterPut ''e_dE_squared_average'' [99, 1],
        WriterPut ''e_marker_den'' [110, 1],
        WriterEndStep,
        WriterBeginStep,
        WriterPut ''i_dr_avg'' [11, 1], WriterPut ''i_dr_squared_average'' [22, 1],
        WriterPut ''i_dE_avg'' [33, 1], WriterPut ''i_dE_squared_average'' [44, 1],
        WriterPut ''i_marker_den'' [55, 1],
        WriterPut ''e_dr_avg'' [66, 1], WriterPut ''e_dr_squared_average'' [77, 1],
        WriterPut ''e_dE_avg'' [88, 1], WriterPut ''e_dE_squared_average'' [99, 1],
        WriterPut ''e_marker_den'' [110, 1],
        WriterEndStep]"
    unfolding lit v1 v3 by (simp add: layout_events_def step_events_def bin_names_def)
  show ?thesis using st0 r litv run2 by blast
qed

section \<open>The heatload pipeline: the merge to rank 0\<close>

subsection \<open>The collectives\<close>

lemma for_each_upt_Suc:
  "for_each [0..<Suc n] body s = and_then (for_each [0..<n] body s) (body n)"
proof -
  have "for_each [0..<Suc n] body s = for_each ([0..<n] @ [n]) body s" by simp
  also have "\<dots> = and_then (for_each [0..<n] body s) (for_each [n] body)"
    by (rule for_each_append)
  also have "for_each [n] body = body n"
    by (rule ext) (simp add: and_then_def split: sum.splits)
  finally show ?thesis .
qed

lemma update_take_drop:
  assumes "n < length xs" "n < length ys"
  shows "(take n xs @ drop n ys)[n := xs ! n] = take (Suc n) xs @ drop (Suc n) ys"
proof -
  have l: "length (take n xs) = n" using assms(1) by simp
  have "(take n xs @ ys ! n # drop (Suc n) ys)[length (take n xs) := xs ! n]
          = take n xs @ xs ! n # drop (Suc n) ys"
    by (rule list_update_length)
  then show ?thesis
    using assms unfolding l by (simp add: Cons_nth_drop_Suc take_Suc_conv_app_nth)
qed

lemma allgather_upto:
  assumes "n \<le> length lens" "length lens \<le> length buf"
  shows "for_each [0..<n]
           (\<lambda>rk buf. if rk < length buf then Inr (buf[rk := lens ! rk]) else Inl OutOfBounds) buf
         = Inr (take n lens @ drop n buf)"
  using assms
proof (induction n)
  case 0
  then show ?case by simp
next
  case (Suc n)
  then show ?case
    by (simp add: for_each_upt_Suc update_take_drop del: upt_Suc)
qed

lemma MPI_Allgather_all:
  assumes "length lens = length buf"
  shows "MPI_Allgather lens buf = Inr lens"
  unfolding MPI_Allgather_def using allgather_upto [of "length lens" lens buf] assms by simp

lemma prefix_sums_length [simp]: "length (prefix_sums xs) = length xs"
  by (simp add: prefix_sums_def)

lemma prefix_sums_nth: "i < length xs \<Longrightarrow> prefix_sums xs ! i = sum_list (take i xs)"
  by (simp add: prefix_sums_def)

lemma displacements_upto:
  assumes "n \<le> length l" "length l \<le> length d"
    and "\<forall>i\<le>length l. - (2 ^ 31) \<le> sum_list (take i l) \<and> sum_list (take i l) \<le> INT_MAX"
  shows "for_each [0..<n]
       (\<lambda>i (displs, ntotal).
          if i < length displs then
            (let n = ntotal + l ! i in
             if - (2 ^ 31) \<le> n \<and> n \<le> INT_MAX then Inr (displs[i := ntotal], n)
             else Inl IntOverflow)
          else Inl OutOfBounds)
       (d, 0)
     = Inr (take n (prefix_sums l) @ drop n d, sum_list (take n l))"
  using assms(1)
proof (induction n)
  case 0
  then show ?case by simp
next
  case (Suc n)
  have n: "n < length l" "n < length d" using Suc.prems assms(2) by simp_all
  have s: "sum_list (take (Suc n) l) = sum_list (take n l) + l ! n"
    using n by (simp add: take_Suc_conv_app_nth)
  have r: "- (2 ^ 31) \<le> sum_list (take n l) + l ! n" "sum_list (take n l) + l ! n \<le> INT_MAX"
    using assms(3) [rule_format, of "Suc n"] Suc.prems unfolding s by simp_all
  have u: "(take n (prefix_sums l) @ drop n d)[n := sum_list (take n l)]
             = take (Suc n) (prefix_sums l) @ drop (Suc n) d"
    using update_take_drop [of n "prefix_sums l" d] n by (simp add: prefix_sums_nth)
  show ?case
    using Suc.IH n r by (simp add: for_each_upt_Suc Let_def u s del: upt_Suc)
qed

lemma displacements_all:
  assumes "length l = length d"
    and "\<forall>i\<le>length l. - (2 ^ 31) \<le> sum_list (take i l) \<and> sum_list (take i l) \<le> INT_MAX"
  shows "displacements l d = Inr (prefix_sums l, sum_list l)"
  unfolding displacements_def
  using displacements_upto [of "length l" l d] assms by simp

lemma scale_upto:
  assumes "n \<le> length l"
    and "\<forall>x\<in>set l. - (2 ^ 31) \<le> x * int NPHASE \<and> x * int NPHASE \<le> INT_MAX"
  shows "for_each [0..<n]
       (\<lambda>i lens. let n = lens ! i * int NPHASE in
          if - (2 ^ 31) \<le> n \<and> n \<le> INT_MAX then Inr (lens[i := n]) else Inl IntOverflow)
       l
     = Inr (take n (map (\<lambda>x. x * int NPHASE) l) @ drop n l)"
  using assms(1)
proof (induction n)
  case 0
  then show ?case by simp
next
  case (Suc n)
  have n: "n < length l" using Suc.prems by simp
  have at: "(take n (map (\<lambda>x. x * int NPHASE) l) @ drop n l) ! n = l ! n"
    using n by (simp add: nth_append)
  have r: "- (2 ^ 31) \<le> l ! n * int NPHASE" "l ! n * int NPHASE \<le> INT_MAX"
    using assms(2) n by simp_all
  have u: "(take n (map (\<lambda>x. x * int NPHASE) l) @ drop n l)[n := l ! n * int NPHASE]
             = take (Suc n) (map (\<lambda>x. x * int NPHASE) l) @ drop (Suc n) l"
    using update_take_drop [of n "map (\<lambda>x. x * int NPHASE) l" l] n by simp
  show ?case
    using Suc.IH n r by (simp add: for_each_upt_Suc Let_def at u del: upt_Suc)
qed

lemma scale_lengths_all:
  assumes "\<forall>x\<in>set l. - (2 ^ 31) \<le> x * int NPHASE \<and> x * int NPHASE \<le> INT_MAX"
  shows "scale_lengths l = Inr (map (\<lambda>x. x * int NPHASE) l)"
  unfolding scale_lengths_def using scale_upto [of "length l" l] assms by simp

lemma gatherv_upto:
  assumes "n \<le> length sends"
    and "counts = map (\<lambda>s. int (length s)) sends"
    and "displs = prefix_sums counts"
    and "length recvbuf = length (concat sends)"
  shows "for_each [0..<n]
          (\<lambda>s buf.
             if s < length counts \<and> s < length displs
                \<and> counts ! s = int (length (sends ! s))
                \<and> 0 \<le> displs ! s
                \<and> displs ! s + counts ! s \<le> int (length buf)
             then Inr (take (nat (displs ! s)) buf @ sends ! s
                       @ drop (nat (displs ! s) + length (sends ! s)) buf)
             else Inl MpiError)
          recvbuf
        = Inr (concat (take n sends) @ drop (length (concat (take n sends))) recvbuf)"
    (is "for_each _ ?body _ = _")
  using assms(1)
proof (induction n)
  case 0
  then show ?case by simp
next
  case (Suc n)
  let ?done = "concat (take n sends)"
  let ?buf = "?done @ drop (length ?done) recvbuf"
  have n: "n < length sends" using Suc.prems by simp
  have tk: "take (Suc n) sends = take n sends @ [sends ! n]"
    using n by (simp add: take_Suc_conv_app_nth)
  have d: "displs ! n = int (length ?done)"
  proof -
    have "int (length ?done) = sum_list (map (\<lambda>s. int (length s)) (take n sends))"
      by (simp add: length_concat sum_list_of_nat [symmetric] comp_def)
    then show ?thesis
      using n unfolding assms(3) by (simp add: prefix_sums_nth assms(2) take_map)
  qed
  have c: "counts ! n = int (length (sends ! n))"
    using n by (simp add: assms(2))
  have "length (concat (take (Suc n) sends)) \<le> length (concat sends)"
    by (subst (2) append_take_drop_id [of "Suc n" sends, symmetric], subst concat_append) simp
  then have fit: "length ?done + length (sends ! n) \<le> length recvbuf"
    using assms(4) by (simp add: tk)
  then have lb: "length ?buf = length recvbuf" by simp
  have cond: "n < length counts \<and> n < length displs
                \<and> counts ! n = int (length (sends ! n))
                \<and> 0 \<le> displs ! n
                \<and> displs ! n + counts ! n \<le> int (length ?buf)"
    unfolding lb d c using n fit by (simp add: assms(2,3))
  have e1: "?body n ?buf = Inr (take (nat (displs ! n)) ?buf @ sends ! n
                            @ drop (nat (displs ! n) + length (sends ! n)) ?buf)"
    by (rule if_P [OF cond])
  have e2: "take (nat (displs ! n)) ?buf @ sends ! n
               @ drop (nat (displs ! n) + length (sends ! n)) ?buf
      = concat (take (Suc n) sends) @ drop (length (concat (take (Suc n) sends))) recvbuf"
    unfolding d nat_int using fit by (simp add: tk add.commute)
  have body: "?body n ?buf
      = Inr (concat (take (Suc n) sends) @ drop (length (concat (take (Suc n) sends))) recvbuf)"
    by (rule trans [OF e1]) (simp only: e2)
  have "for_each [0..<n] ?body recvbuf = Inr ?buf"
    using Suc.IH n by simp
  then show ?case
    unfolding for_each_upt_Suc by (simp only: and_then_Inr body)
qed

lemma MPI_Gatherv_root:
  assumes "counts = map (\<lambda>s. int (length s)) sends"
    and "displs = prefix_sums counts"
    and "length recvbuf = length (concat sends)"
  shows "MPI_Gatherv 0 sends recvbuf counts displs = Inr (concat sends)"
  unfolding MPI_Gatherv_def
  using gatherv_upto [of "length sends" sends counts displs recvbuf] assms by simp

lemma MPI_Gatherv_other: "rk \<noteq> 0 \<Longrightarrow> MPI_Gatherv rk sends recvbuf counts displs = Inr recvbuf"
  by (simp add: MPI_Gatherv_def)

subsection \<open>The merge of one species\<close>

lemma sum_take_nonneg:
  assumes "\<forall>x\<in>set l. (0::int) \<le> x"
  shows "0 \<le> sum_list (take i l) \<and> sum_list (take i l) \<le> sum_list l"
proof -
  have "sum_list l = sum_list (take i l) + sum_list (drop i l)"
    by (subst append_take_drop_id [of i l, symmetric], subst sum_list_append) simp
  moreover have "0 \<le> sum_list (take i l)" "0 \<le> sum_list (drop i l)"
    using assms by (auto intro!: sum_list_nonneg dest: in_set_takeD in_set_dropD)
  ultimately show ?thesis by simp
qed

lemma sum_record_counts: "sum_list (record_counts locals) = int (total_records locals)"
  by (simp add: record_counts_def total_records_def sum_list_of_nat [symmetric] comp_def)

lemma sum_scaled_counts: "sum_list (scaled_counts locals) = int (total_records locals) * int NPHASE"
  by (simp add: scaled_counts_def sum_record_counts [symmetric] sum_list_mult_const)

lemma member_le_total:
  "c \<in> set locals \<Longrightarrow> length (gid_v c) \<le> total_records locals"
  unfolding total_records_def by (induction locals) auto

lemma length_concat_columns:
  assumes "\<forall>c\<in>set locals. aligned c"
  shows "length (concat (map gid_v locals)) = total_records locals"
    "length (concat (map flag_v locals)) = total_records locals"
    "length (concat (map step_v locals)) = total_records locals"
    "length (concat (map dw_v locals)) = total_records locals"
    "length (concat (map phase_v locals)) = total_records locals * NPHASE"
  using assms
  by (induction locals) (simp_all add: total_records_def aligned_def add_mult_distrib)

lemma counts_of_columns:
  assumes "\<forall>c\<in>set locals. aligned c"
  shows "map (\<lambda>s. int (length s)) (map gid_v locals) = record_counts locals"
    "map (\<lambda>s. int (length s)) (map flag_v locals) = record_counts locals"
    "map (\<lambda>s. int (length s)) (map step_v locals) = record_counts locals"
    "map (\<lambda>s. int (length s)) (map dw_v locals) = record_counts locals"
    "map (\<lambda>s. int (length s)) (map phase_v locals) = scaled_counts locals"
  using assms by (simp_all add: record_counts_def scaled_counts_def aligned_def)

lemma gatherv_columns:
  assumes "map (\<lambda>s. int (length s)) sends = counts" "length (concat sends) = n"
  shows "MPI_Gatherv rk sends (replicate n zero) counts (prefix_sums counts)
       = Inr (if rk = 0 then concat sends else replicate n zero)"
proof (cases "rk = 0")
  case True
  have "MPI_Gatherv 0 sends (replicate n zero) counts (prefix_sums counts) = Inr (concat sends)"
    by (rule MPI_Gatherv_root) (simp_all add: assms)
  then show ?thesis using True by simp
next
  case False
  then show ?thesis by (simp add: MPI_Gatherv_other)
qed

lemma gather_species_result:
  assumes al: "\<forall>c\<in>set locals. aligned c"
    and fit: "int (total_records locals) * int NPHASE \<le> INT_MAX"
    and b1: "length (fst bufs) = length locals" and b2: "length (snd bufs) = length locals"
  shows "gather_species rk locals bufs
       = Inr (if rk = 0 then concat_columns locals else zero_columns (total_records locals),
              (scaled_counts locals, prefix_sums (scaled_counts locals)),
              gather_calls locals)"
proof -
  let ?l = "record_counts locals"
  let ?l' = "scaled_counts locals"
  let ?n = "total_records locals"
  have tot: "int ?n \<le> INT_MAX"
    using fit by (simp add: NPHASE_def)
  have lens: "map (\<lambda>c. to_int32 (int (length (gid_v c)))) locals = ?l"
    unfolding record_counts_def
  proof (rule map_cong [OF refl])
    fix c assume "c \<in> set locals"
    then have "int (length (gid_v c)) \<le> INT_MAX"
      using member_le_total [of c locals] tot by linarith
    then show "to_int32 (int (length (gid_v c))) = int (length (gid_v c))"
      by (intro to_int32_small) simp_all
  qed
  have ag: "MPI_Allgather ?l (fst bufs) = Inr ?l"
    by (rule MPI_Allgather_all) (simp add: b1 record_counts_def)
  have nonneg: "\<forall>x\<in>set ?l. 0 \<le> x" "\<forall>x\<in>set ?l'. 0 \<le> x"
    by (auto simp: record_counts_def scaled_counts_def)
  have d1: "displacements ?l (snd bufs) = Inr (prefix_sums ?l, int ?n)"
    unfolding sum_record_counts [symmetric]
  proof (rule displacements_all)
    show "length ?l = length (snd bufs)" by (simp add: b2 record_counts_def)
    show "\<forall>i\<le>length ?l. - (2 ^ 31) \<le> sum_list (take i ?l) \<and> sum_list (take i ?l) \<le> INT_MAX"
    proof (intro allI impI)
      fix i
      have "0 \<le> sum_list (take i ?l) \<and> sum_list (take i ?l) \<le> int ?n"
        using sum_take_nonneg [OF nonneg(1), of i] unfolding sum_record_counts .
      then show "- (2 ^ 31) \<le> sum_list (take i ?l) \<and> sum_list (take i ?l) \<le> INT_MAX"
        using tot by auto
    qed
  qed
  have al0: "alloc (int ?n) zero = Inr (replicate ?n zero)" for zero :: 'z
    by (simp add: alloc_def)
  have al1: "alloc (int ?n * int NPHASE) zero = Inr (replicate (?n * NPHASE) zero)" for zero :: 'z
  proof -
    have "int ?n * int NPHASE = int (?n * NPHASE)" by simp
    then show ?thesis unfolding alloc_def by (simp del: of_nat_mult)
  qed
  have sc: "scale_lengths ?l = Inr ?l'"
    unfolding scaled_counts_def
  proof (rule scale_lengths_all, rule ballI)
    fix x assume x: "x \<in> set ?l"
    then have "x \<le> int ?n"
      using member_le_total [of _ locals] by (auto simp: record_counts_def)
    moreover have "0 \<le> x" using nonneg(1) x by simp
    ultimately show "- (2 ^ 31) \<le> x * int NPHASE \<and> x * int NPHASE \<le> INT_MAX"
      using fit by (simp add: NPHASE_def)
  qed
  have d2: "displacements ?l' (prefix_sums ?l) = Inr (prefix_sums ?l', int ?n * int NPHASE)"
    unfolding sum_scaled_counts [symmetric]
  proof (rule displacements_all)
    show "length ?l' = length (prefix_sums ?l)" by (simp add: scaled_counts_def)
    show "\<forall>i\<le>length ?l'. - (2 ^ 31) \<le> sum_list (take i ?l') \<and> sum_list (take i ?l') \<le> INT_MAX"
    proof (intro allI impI)
      fix i
      have "0 \<le> sum_list (take i ?l') \<and> sum_list (take i ?l') \<le> int ?n * int NPHASE"
        using sum_take_nonneg [OF nonneg(2), of i] unfolding sum_scaled_counts .
      then show "- (2 ^ 31) \<le> sum_list (take i ?l') \<and> sum_list (take i ?l') \<le> INT_MAX"
        using fit by auto
    qed
  qed
  note cc = counts_of_columns [OF al]
  note lc = length_concat_columns [OF al]
  have g: "MPI_Gatherv rk (map gid_v locals) (replicate ?n 0) ?l (prefix_sums ?l)
             = Inr (if rk = 0 then concat (map gid_v locals) else replicate ?n 0)"
    "MPI_Gatherv rk (map flag_v locals) (replicate ?n 0) ?l (prefix_sums ?l)
             = Inr (if rk = 0 then concat (map flag_v locals) else replicate ?n 0)"
    "MPI_Gatherv rk (map step_v locals) (replicate ?n 0) ?l (prefix_sums ?l)
             = Inr (if rk = 0 then concat (map step_v locals) else replicate ?n 0)"
    "MPI_Gatherv rk (map dw_v locals) (replicate ?n 0) ?l (prefix_sums ?l)
             = Inr (if rk = 0 then concat (map dw_v locals) else replicate ?n 0)"
    "MPI_Gatherv rk (map phase_v locals) (replicate (?n * NPHASE) 0) ?l' (prefix_sums ?l')
             = Inr (if rk = 0 then concat (map phase_v locals) else replicate (?n * NPHASE) 0)"
    by (rule gatherv_columns [OF cc(1) lc(1)], rule gatherv_columns [OF cc(2) lc(2)],
        rule gatherv_columns [OF cc(3) lc(3)], rule gatherv_columns [OF cc(4) lc(4)],
        rule gatherv_columns [OF cc(5) lc(5)])
  have ph: "(if int ?n * int NPHASE \<le> INT_MAX then alloc (int ?n * int NPHASE) (0::real)
             else Inl IntOverflow) = Inr (replicate (?n * NPHASE) 0)"
    using fit by (simp only: if_True al1)
  show ?thesis
    unfolding gather_species_def
    by (simp only: lens ag and_then_Inr d1 case_prod_conv al0 ph g sc d2
        concat_columns_def zero_columns_def gather_calls_def if_distrib [of Inr] fst_conv snd_conv)
      (simp add: if_distrib)
qed

lemma consolidate_result:
  assumes "\<forall>c\<in>set igroup. aligned c" "\<forall>c\<in>set egroup. aligned c"
    and "int (total_records igroup) * int NPHASE \<le> INT_MAX"
    and "int (total_records egroup) * int NPHASE \<le> INT_MAX"
    and "length igroup = W" "length egroup = W"
  shows "consolidate rk W igroup egroup
       = Inr (if rk = 0 then concat_columns igroup else zero_columns (total_records igroup),
              if rk = 0 then concat_columns egroup else zero_columns (total_records egroup),
              gather_calls igroup @ gather_calls egroup)"
proof -
  have 1: "gather_species rk igroup (replicate W 0, replicate W 0)
       = Inr (if rk = 0 then concat_columns igroup else zero_columns (total_records igroup),
              (scaled_counts igroup, prefix_sums (scaled_counts igroup)),
              gather_calls igroup)"
    by (rule gather_species_result) (use assms in simp_all)
  have 2: "gather_species rk egroup (scaled_counts igroup, prefix_sums (scaled_counts igroup))
       = Inr (if rk = 0 then concat_columns egroup else zero_columns (total_records egroup),
              (scaled_counts egroup, prefix_sums (scaled_counts egroup)),
              gather_calls egroup)"
    by (rule gather_species_result)
      (use assms in \<open>simp_all add: scaled_counts_def record_counts_def\<close>)
  show ?thesis
    unfolding consolidate_def 1 and_then_Inr case_prod_conv 2 by simp
qed

subsection \<open>Records of aligned sequences\<close>

lemma concat_columns_Nil:
  "concat_columns [] = \<lparr>gid_v = [], flag_v = [], step_v = [], dw_v = [], phase_v = []\<rparr>"
  by (simp add: concat_columns_def)

lemma concat_columns_Cons:
  "concat_columns (c # cs) = append_columns c (concat_columns cs)"
  by (simp add: concat_columns_def append_columns_def)

lemma aligned_append: "aligned c \<Longrightarrow> aligned d \<Longrightarrow> aligned (append_columns c d)"
  by (simp add: aligned_def append_columns_def add_mult_distrib)

lemma aligned_concat: "\<forall>c\<in>set cs. aligned c \<Longrightarrow> aligned (concat_columns cs)"
  by (induction cs) (simp_all add: concat_columns_Cons aligned_append, simp add: concat_columns_def aligned_def)

lemma GET_h_append_left:
  "i * NPHASE + j < length xs \<Longrightarrow> GET_h (xs @ ys) i j = GET_h xs i j"
  by (simp add: GET_h_def nth_append)

lemma GET_h_append_right:
  "length xs = n * NPHASE \<Longrightarrow> GET_h (xs @ ys) (n + i) j = GET_h ys i j"
  by (simp add: GET_h_def nth_append add_mult_distrib)

lemma record_at_append_left:
  assumes "aligned c" "k < length (gid_v c)"
  shows "record_at (append_columns c d) k = record_at c k"
proof -
  have "k * NPHASE + j < length (phase_v c)" if "j \<le> 10" for j
    using assms that by (simp add: aligned_def NPHASE_def)
  then have ph: "GET_h (phase_v c @ phase_v d) k j = GET_h (phase_v c) k j" if "j \<le> 10" for j
    using that by (intro GET_h_append_left) simp
  have sc: "(gid_v c @ gid_v d) ! k = gid_v c ! k" "(flag_v c @ flag_v d) ! k = flag_v c ! k"
    "(step_v c @ step_v d) ! k = step_v c ! k" "(dw_v c @ dw_v d) ! k = dw_v c ! k"
    using assms by (simp_all add: nth_append aligned_def)
  show ?thesis
    by (simp add: record_at_def append_columns_def sc ph)
qed

lemma record_at_append_right:
  assumes "aligned c"
  shows "record_at (append_columns c d) (length (gid_v c) + k) = record_at d k"
proof -
  have ph: "GET_h (phase_v c @ phase_v d) (length (gid_v c) + k) j = GET_h (phase_v d) k j" for j
    using assms by (intro GET_h_append_right) (simp add: aligned_def)
  have sc: "(gid_v c @ gid_v d) ! (length (gid_v c) + k) = gid_v d ! k"
    "(flag_v c @ flag_v d) ! (length (gid_v c) + k) = flag_v d ! k"
    "(step_v c @ step_v d) ! (length (gid_v c) + k) = step_v d ! k"
    "(dw_v c @ dw_v d) ! (length (gid_v c) + k) = dw_v d ! k"
    using assms by (simp_all add: nth_append aligned_def)
  show ?thesis
    by (simp add: record_at_def append_columns_def sc ph)
qed

lemma records_append:
  assumes "aligned c"
  shows "records (append_columns c d) = records c @ records d"
proof -
  let ?n = "length (gid_v c)" and ?m = "length (gid_v d)"
  have "records (append_columns c d) = map (record_at (append_columns c d)) [0..<?n + ?m]"
    by (simp add: records_def append_columns_def)
  also have "[0..<?n + ?m] = [0..<?n] @ map (\<lambda>k. ?n + k) [0..<?m]"
  proof -
    have "map (\<lambda>k. ?n + k) [0..<?m] = [?n..<?n + ?m]"
      using map_add_upt [of ?n ?m] by (simp add: add.commute)
    moreover have "[0..<?n + ?m] = [0..<?n] @ [?n..<?n + ?m]"
      by (rule upt_add_eq_append) simp
    ultimately show ?thesis by simp
  qed
  also have "map (record_at (append_columns c d)) ([0..<?n] @ map (\<lambda>k. ?n + k) [0..<?m])
               = map (record_at c) [0..<?n] @ map (record_at d) [0..<?m]"
    using assms by (simp add: record_at_append_left record_at_append_right comp_def)
  finally show ?thesis by (simp add: records_def)
qed

lemma records_concat:
  assumes "\<forall>c\<in>set cs. aligned c"
  shows "records (concat_columns cs) = concat (map records cs)"
  using assms
proof (induction cs)
  case Nil
  then show ?case by (simp add: concat_columns_Nil records_def)
next
  case (Cons c cs)
  then show ?case by (simp add: concat_columns_Cons records_append)
qed

lemma length_records [simp]: "length (records c) = length (gid_v c)"
  by (simp add: records_def)

subsection \<open>The classification loops\<close>

lemma make_particle_aligned:
  assumes "aligned c" "int (length (gid_v c)) * int NPHASE \<le> INT_MAX" "k < length (gid_v c)"
  shows "make_particle c k = Inr (record_at c k)"
proof -
  have "k * NPHASE + 10 < length (gid_v c) * NPHASE"
    using assms(3) by (simp add: NPHASE_def)
  moreover from this have "int (k * NPHASE + 10) \<le> INT_MAX"
    using assms(2) by (simp del: of_nat_add of_nat_mult add: of_nat_mult [symmetric])
  ultimately show ?thesis
    using assms(1,3) by (simp add: make_particle_def aligned_def)
qed

lemma escaped_loop_upto:
  assumes "aligned c" "int (length (gid_v c)) * int NPHASE \<le> INT_MAX" "n \<le> length (gid_v c)"
  shows "for_each [0..<n]
       (\<lambda>k s. and_then (make_particle c k) (\<lambda>ptl.
          Inr (if escaped (flag ptl) then add s ptl else s))) esc
     = Inr (esc @ filter (\<lambda>p. escaped (flag p)) (map (record_at c) [0..<n]))"
  using assms(3)
proof (induction n)
  case 0
  then show ?case by simp
next
  case (Suc n)
  then have "make_particle c n = Inr (record_at c n)"
    using make_particle_aligned [OF assms(1,2), of n] by simp
  then show ?case
    using Suc by (simp add: for_each_upt_Suc add_def del: upt_Suc) simp
qed

lemma confined_loop_upto:
  assumes "aligned c" "int (length (gid_v c)) * int NPHASE \<le> INT_MAX" "n \<le> length (gid_v c)"
  shows "for_each [0..<n]
       (\<lambda>i d. and_then (make_particle c i) (\<lambda>ptl.
          Inr (if \<not> escaped (flag ptl) then d @ [ptl] else d))) dv
     = Inr (dv @ filter (\<lambda>p. \<not> escaped (flag p)) (map (record_at c) [0..<n]))"
  using assms(3)
proof (induction n)
  case 0
  then show ?case by simp
next
  case (Suc n)
  then have "make_particle c n = Inr (record_at c n)"
    using make_particle_aligned [OF assms(1,2), of n] by simp
  then show ?case
    using Suc by (simp add: for_each_upt_Suc del: upt_Suc) simp
qed

lemma escaped_loop_result:
  assumes "aligned c" "int (length (gid_v c)) * int NPHASE \<le> INT_MAX"
  shows "escaped_loop escaped c [] = Inr (filter (\<lambda>p. escaped (flag p)) (records c))"
  unfolding escaped_loop_def records_def
  using escaped_loop_upto [OF assms, of "length (gid_v c)" escaped "[]"] by simp

lemma confined_loop_result:
  assumes "aligned c" "int (length (gid_v c)) * int NPHASE \<le> INT_MAX"
  shows "confined_loop escaped c [] = Inr (filter (\<lambda>p. \<not> escaped (flag p)) (records c))"
  unfolding confined_loop_def records_def
  using confined_loop_upto [OF assms, of "length (gid_v c)" escaped "[]"] by simp

lemma length_gid_concat:
  "\<forall>c\<in>set cs. aligned c \<Longrightarrow> length (gid_v (concat_columns cs)) = total_records cs"
  using length_concat_columns(1) [of cs] by (simp add: concat_columns_def)

lemma classify_result:
  assumes ai: "\<forall>c\<in>set igroup. aligned c" and ae: "\<forall>c\<in>set egroup. aligned c"
    and fi: "int (total_records igroup) * int NPHASE \<le> INT_MAX"
    and fe: "int (total_records egroup) * int NPHASE \<le> INT_MAX"
    and li: "length igroup = W" and le: "length egroup = W"
    and rk: "rk < W"
  shows "classify escaped rk W igroup egroup
       = Inr (if rk = 0 then filter (\<lambda>p. escaped (flag p)) (concat (map records igroup)) else [],
              if rk = 0 then filter (\<lambda>p. escaped (flag p)) (concat (map records egroup)) else [],
              filter (\<lambda>p. \<not> escaped (flag p)) (records (igroup ! rk)),
              filter (\<lambda>p. \<not> escaped (flag p)) (records (egroup ! rk)))"
proof -
  note c = consolidate_result [OF ai ae fi fe li le, of rk]
  have ti: "escaped_loop escaped (concat_columns igroup) []
              = Inr (filter (\<lambda>p. escaped (flag p)) (concat (map records igroup)))"
    using escaped_loop_result [OF aligned_concat [OF ai], of escaped] fi
    by (simp add: length_gid_concat [OF ai] records_concat [OF ai])
  have te: "escaped_loop escaped (concat_columns egroup) []
              = Inr (filter (\<lambda>p. escaped (flag p)) (concat (map records egroup)))"
    using escaped_loop_result [OF aligned_concat [OF ae], of escaped] fe
    by (simp add: length_gid_concat [OF ae] records_concat [OF ae])
  have small: "int (length (gid_v c)) * int NPHASE \<le> INT_MAX"
    if "c \<in> set cs" "int (total_records cs) * int NPHASE \<le> INT_MAX" for c cs
  proof -
    have "int (length (gid_v c)) * int NPHASE \<le> int (total_records cs) * int NPHASE"
      using member_le_total [OF that(1)] by (intro mult_right_mono) simp_all
    then show ?thesis using that(2) by linarith
  qed
  have mi: "igroup ! rk \<in> set igroup" and me: "egroup ! rk \<in> set egroup"
    using rk li le by simp_all
  have di: "confined_loop escaped (igroup ! rk) []
              = Inr (filter (\<lambda>p. \<not> escaped (flag p)) (records (igroup ! rk)))"
    using mi ai small [OF mi fi] by (intro confined_loop_result) simp_all
  have de: "confined_loop escaped (egroup ! rk) []
              = Inr (filter (\<lambda>p. \<not> escaped (flag p)) (records (egroup ! rk)))"
    using me ae small [OF me fe] by (intro confined_loop_result) simp_all
  show ?thesis
    unfolding classify_def c and_then_Inr case_prod_conv
    using rk li le by (simp add: ti te di de)
qed

lemma record_at_spec:
  assumes "aligned c" "i < length (gid_v c)"
  shows "record_at c i = spec_record c i"
proof -
  have l: "11 * i + j < length (phase_v c)" if "j < 11" for j
  proof -
    have "11 * i + j < 11 * Suc i" using that by simp
    also have "\<dots> \<le> 11 * length (gid_v c)" using assms(2) by (intro mult_le_mono2) simp
    finally show ?thesis using assms(1) by (simp add: aligned_def NPHASE_def)
  qed
  have g: "GET_h (phase_v c) i j = take 11 (drop (11 * i) (phase_v c)) ! j" if "j < 11" for j
    using l [OF that] that by (simp add: GET_h_def NPHASE_def mult.commute)
  show ?thesis
    unfolding record_at_def spec_record_def Let_def by (simp add: g)
qed

lemma records_spec: "aligned c \<Longrightarrow> records c = spec_records c"
  by (simp add: records_def spec_records_def record_at_spec)

lemma concat_records_spec:
  "\<forall>c\<in>set cs. aligned c \<Longrightarrow> concat (map records cs) = concat (map spec_records cs)"
  by (induction cs) (simp_all add: records_spec)

lemma concat_nth_offset:
  assumes "q < length xss" "i < length (xss ! q)"
  shows "concat xss ! (sum_list (map length (take q xss)) + i) = xss ! q ! i"
  using assms
proof (induction xss arbitrary: q)
  case Nil
  then show ?case by simp
next
  case (Cons xs xss)
  show ?case
  proof (cases q)
    case 0
    then show ?thesis using Cons.prems by (simp add: nth_append)
  next
    case (Suc q')
    then show ?thesis using Cons.prems Cons.IH [of q'] by (simp add: nth_append add.assoc)
  qed
qed

lemma rebuilt_records:
  assumes al: "\<forall>c\<in>set cs. aligned c" and fit: "int (total_records cs) * int NPHASE \<le> INT_MAX"
  shows "length (gid_v (concat_columns cs)) = sum_list (map (\<lambda>c. length (gid_v c)) cs)"
    and "map (make_particle (concat_columns cs)) [0..<length (gid_v (concat_columns cs))]
           = map Inr (concat (map spec_records cs))"
    and "\<forall>q<length cs. \<forall>i<length (gid_v (cs ! q)).
           make_particle (concat_columns cs)
               (sum_list (map (\<lambda>c. length (gid_v c)) (take q cs)) + i)
             = Inr (spec_record (cs ! q) i)"
proof -
  have l: "length (gid_v (concat_columns cs)) = total_records cs"
    by (rule length_gid_concat [OF al])
  show l': "length (gid_v (concat_columns cs)) = sum_list (map (\<lambda>c. length (gid_v c)) cs)"
    using l by (simp add: total_records_def)
  have r: "records (concat_columns cs) = concat (map spec_records cs)"
    using records_concat [OF al] concat_records_spec [OF al] by simp
  have m: "make_particle (concat_columns cs) k = Inr (concat (map spec_records cs) ! k)"
    if "k < length (gid_v (concat_columns cs))" for k
  proof -
    have "make_particle (concat_columns cs) k = Inr (record_at (concat_columns cs) k)"
      using that fit by (intro make_particle_aligned aligned_concat al) (simp_all add: l)
    also have "record_at (concat_columns cs) k = records (concat_columns cs) ! k"
      using that by (simp add: records_def)
    finally show ?thesis by (simp add: r)
  qed
  have len: "length (concat (map spec_records cs)) = length (gid_v (concat_columns cs))"
    using arg_cong [OF r, of length] by simp
  show "map (make_particle (concat_columns cs)) [0..<length (gid_v (concat_columns cs))]
           = map Inr (concat (map spec_records cs))"
    by (rule nth_equalityI) (simp_all add: len m)
  show "\<forall>q<length cs. \<forall>i<length (gid_v (cs ! q)).
           make_particle (concat_columns cs)
               (sum_list (map (\<lambda>c. length (gid_v c)) (take q cs)) + i)
             = Inr (spec_record (cs ! q) i)"
  proof (intro allI impI)
    fix q i assume q: "q < length cs" and i: "i < length (gid_v (cs ! q))"
    let ?k = "sum_list (map (\<lambda>c. length (gid_v c)) (take q cs)) + i"
    have e: "map length (take q (map spec_records cs)) = map (\<lambda>c. length (gid_v c)) (take q cs)"
      by (simp add: take_map spec_records_def)
    have n: "concat (map spec_records cs) ! ?k = map spec_records cs ! q ! i"
      using concat_nth_offset [of q "map spec_records cs" i] q i
      by (simp add: e spec_records_def)
    have "?k < length (concat (map spec_records cs))"
    proof -
      have "cs = take q cs @ cs ! q # drop (Suc q) cs"
        using q by (simp add: id_take_nth_drop)
      then have "length (concat (map spec_records cs))
          = length (concat (map spec_records (take q cs @ cs ! q # drop (Suc q) cs)))"
        by simp
      also have "\<dots> = sum_list (map (\<lambda>c. length (gid_v c)) (take q cs)) + length (gid_v (cs ! q))
            + length (concat (map spec_records (drop (Suc q) cs)))"
        by (simp add: length_concat spec_records_def comp_def)
      finally show ?thesis using i by simp
    qed
    then have "make_particle (concat_columns cs) ?k = Inr (concat (map spec_records cs) ! ?k)"
      using m len by simp
    then show "make_particle (concat_columns cs) ?k = Inr (spec_record (cs ! q) i)"
      using n q i by (simp add: spec_records_def)
  qed
qed

text \<open>
  Claim C3. For both species: when the local sequences of every rank are index-aligned
  and the number of records of the group times \<open>NPHASE\<close> fits \<open>int\<close>, the exchange at
  rank 0 succeeds; the gathered sequences hold as many records as the ranks hold
  together; the records that the loop of the coordinator builds from them, index by
  index, are the records of rank 0 followed by those of rank 1 and so on; and the
  record built at the displacement of rank \<open>q\<close> plus \<open>i\<close> has the global id, the flag,
  the step, the energy loss and the eleven phase values of record \<open>i\<close> of rank \<open>q\<close>.
\<close>

theorem gather_roundtrip:
  assumes "\<forall>c\<in>set igroup. aligned c" and "\<forall>c\<in>set egroup. aligned c"
    and "int (total_records igroup) * int NPHASE \<le> INT_MAX"
    and "int (total_records egroup) * int NPHASE \<le> INT_MAX"
    and "length igroup = W" and "length egroup = W"
  shows "\<exists>itotal etotal calls.
           consolidate 0 W igroup egroup = Inr (itotal, etotal, calls)
         \<and> length (gid_v itotal) = sum_list (map (\<lambda>c. length (gid_v c)) igroup)
         \<and> length (gid_v etotal) = sum_list (map (\<lambda>c. length (gid_v c)) egroup)
         \<and> map (make_particle itotal) [0..<length (gid_v itotal)]
             = map Inr (concat (map spec_records igroup))
         \<and> map (make_particle etotal) [0..<length (gid_v etotal)]
             = map Inr (concat (map spec_records egroup))
         \<and> (\<forall>q<W. \<forall>i<length (gid_v (igroup ! q)).
               make_particle itotal (sum_list (map (\<lambda>c. length (gid_v c)) (take q igroup)) + i)
                 = Inr (spec_record (igroup ! q) i))
         \<and> (\<forall>q<W. \<forall>i<length (gid_v (egroup ! q)).
               make_particle etotal (sum_list (map (\<lambda>c. length (gid_v c)) (take q egroup)) + i)
                 = Inr (spec_record (egroup ! q) i))"
proof -
  have c: "consolidate 0 W igroup egroup
             = Inr (concat_columns igroup, concat_columns egroup,
                    gather_calls igroup @ gather_calls egroup)"
    using consolidate_result [OF assms, of 0] by simp
  note i = rebuilt_records [OF assms(1,3)]
  note e = rebuilt_records [OF assms(2,4)]
  show ?thesis
    unfolding c using i(1,2) e(1,2) i(3) [unfolded assms(5)] e(3) [unfolded assms(6)]
    by blast
qed

text \<open>
  Claim C5. For both species and every rank \<open>rk\<close> of the group: a record of the local
  batch of the rank whose flag decodes as escaped is among the candidates that the
  coordinator adds to the escaped set, built from the gathered sequences, and is not in
  the confined list of the rank; a record whose flag decodes as not escaped is in the
  confined list of the rank and not among the escaped candidates.
\<close>

theorem escape_classification:
  assumes "\<forall>c\<in>set igroup. aligned c" and "\<forall>c\<in>set egroup. aligned c"
    and "int (total_records igroup) * int NPHASE \<le> INT_MAX"
    and "int (total_records egroup) * int NPHASE \<le> INT_MAX"
    and "length igroup = W" and "length egroup = W"
    and "rk < W"
  shows "\<exists>iesc eesc idiv0 ediv0 iesc' eesc' idiv ediv.
           classify escaped 0 W igroup egroup = Inr (iesc, eesc, idiv0, ediv0)
         \<and> classify escaped rk W igroup egroup = Inr (iesc', eesc', idiv, ediv)
         \<and> (\<forall>p\<in>set (records (igroup ! rk)).
               (escaped (flag p) \<longrightarrow> p \<in> set iesc \<and> p \<notin> set idiv)
             \<and> (\<not> escaped (flag p) \<longrightarrow> p \<in> set idiv \<and> p \<notin> set iesc))
         \<and> (\<forall>p\<in>set (records (egroup ! rk)).
               (escaped (flag p) \<longrightarrow> p \<in> set eesc \<and> p \<notin> set ediv)
             \<and> (\<not> escaped (flag p) \<longrightarrow> p \<in> set ediv \<and> p \<notin> set eesc))"
proof -
  have W: "0 < W" using assms(7) by simp
  note c0 = classify_result [OF assms(1-6) W, of escaped]
  note ck = classify_result [OF assms(1-7), of escaped]
  have mem: "p \<in> set (concat (map records cs))" if "p \<in> set (records (cs ! rk))" "rk < length cs"
    for p and cs :: "columns list"
    using that by (auto intro: nth_mem)
  show ?thesis
    unfolding c0 ck using mem [of _ igroup] mem [of _ egroup] assms(5-7) by auto
qed

text \<open>
  Claim C10. At every rank, for aligned sequences whose sizes fit \<open>int\<close>, the ten
  \<open>MPI_Gatherv\<close> calls of a step are given, in order: four times the record counts of
  the ions with their prefix sums, once these counts times \<open>NPHASE\<close> with the prefix
  sums of the scaled counts, and then the same for the electrons, from the electron
  counts. The merge of the electrons gives its gathers these tables whatever the two
  buffers hold when it starts.
\<close>

theorem gather_tables:
  assumes "\<forall>c\<in>set igroup. aligned c" and "\<forall>c\<in>set egroup. aligned c"
    and "int (total_records igroup) * int NPHASE \<le> INT_MAX"
    and "int (total_records egroup) * int NPHASE \<le> INT_MAX"
    and "length igroup = W" and "length egroup = W"
  shows "(\<exists>itotal etotal.
            consolidate rk W igroup egroup
              = Inr (itotal, etotal,
                  [(record_counts igroup, prefix_sums (record_counts igroup)),
                   (record_counts igroup, prefix_sums (record_counts igroup)),
                   (record_counts igroup, prefix_sums (record_counts igroup)),
                   (record_counts igroup, prefix_sums (record_counts igroup)),
                   (map (\<lambda>x. x * int NPHASE) (record_counts igroup),
                    prefix_sums (map (\<lambda>x. x * int NPHASE) (record_counts igroup))),
                   (record_counts egroup, prefix_sums (record_counts egroup)),
                   (record_counts egroup, prefix_sums (record_counts egroup)),
                   (record_counts egroup, prefix_sums (record_counts egroup)),
                   (record_counts egroup, prefix_sums (record_counts egroup)),
                   (map (\<lambda>x. x * int NPHASE) (record_counts egroup),
                    prefix_sums (map (\<lambda>x. x * int NPHASE) (record_counts egroup)))]))
       \<and> (\<forall>bufs. length (fst bufs) = W \<and> length (snd bufs) = W \<longrightarrow>
            (\<exists>etotal out.
               gather_species rk egroup bufs
                 = Inr (etotal, out,
                     [(record_counts egroup, prefix_sums (record_counts egroup)),
                      (record_counts egroup, prefix_sums (record_counts egroup)),
                      (record_counts egroup, prefix_sums (record_counts egroup)),
                      (record_counts egroup, prefix_sums (record_counts egroup)),
                      (map (\<lambda>x. x * int NPHASE) (record_counts egroup),
                       prefix_sums (map (\<lambda>x. x * int NPHASE) (record_counts egroup)))])))"
proof (intro conjI allI impI)
  show "\<exists>itotal etotal.
            consolidate rk W igroup egroup
              = Inr (itotal, etotal,
                  [(record_counts igroup, prefix_sums (record_counts igroup)),
                   (record_counts igroup, prefix_sums (record_counts igroup)),
                   (record_counts igroup, prefix_sums (record_counts igroup)),
                   (record_counts igroup, prefix_sums (record_counts igroup)),
                   (map (\<lambda>x. x * int NPHASE) (record_counts igroup),
                    prefix_sums (map (\<lambda>x. x * int NPHASE) (record_counts igroup))),
                   (record_counts egroup, prefix_sums (record_counts egroup)),
                   (record_counts egroup, prefix_sums (record_counts egroup)),
                   (record_counts egroup, prefix_sums (record_counts egroup)),
                   (record_counts egroup, prefix_sums (record_counts egroup)),
                   (map (\<lambda>x. x * int NPHASE) (record_counts egroup),
                    prefix_sums (map (\<lambda>x. x * int NPHASE) (record_counts egroup)))])"
    unfolding consolidate_result [OF assms, of rk]
    by (simp add: gather_calls_def scaled_counts_def)
next
  fix bufs :: "int list \<times> int list"
  assume b: "length (fst bufs) = W \<and> length (snd bufs) = W"
  show "\<exists>etotal out.
               gather_species rk egroup bufs
                 = Inr (etotal, out,
                     [(record_counts egroup, prefix_sums (record_counts egroup)),
                      (record_counts egroup, prefix_sums (record_counts egroup)),
                      (record_counts egroup, prefix_sums (record_counts egroup)),
                      (record_counts egroup, prefix_sums (record_counts egroup)),
                      (map (\<lambda>x. x * int NPHASE) (record_counts egroup),
                       prefix_sums (map (\<lambda>x. x * int NPHASE) (record_counts egroup)))])"
    using gather_species_result [OF assms(2,4), of bufs rk] b assms(6)
    by (simp add: gather_calls_def scaled_counts_def)
qed

section \<open>The heatload pipeline on concrete input\<close>

lemma upt_3: "[0..<3] = [0, Suc 0, 2]"
  by (simp add: numeral_3_eq_3 numeral_2_eq_2)

lemma ex_aligned: "aligned ex_c0" "aligned ex_c1" "aligned ex_c2"
  by (simp_all add: aligned_def ex_c0_def ex_c1_def ex_c2_def NPHASE_def)

lemma ex_groups_aligned: "\<forall>c\<in>set ex_igroup. aligned c" "\<forall>c\<in>set ex_egroup. aligned c"
  by (simp_all add: ex_igroup_def ex_egroup_def ex_aligned)

lemma ex_total: "total_records ex_igroup = 3" "total_records ex_egroup = 3"
  by (simp_all add: total_records_def ex_igroup_def ex_egroup_def ex_c0_def ex_c1_def ex_c2_def)

lemma ex_fit:
  "int (total_records ex_igroup) * int NPHASE \<le> INT_MAX"
  "int (total_records ex_egroup) * int NPHASE \<le> INT_MAX"
  by (simp_all add: ex_total NPHASE_def INT_MAX_def)

lemma ex_lengths: "length ex_igroup = 3" "length ex_egroup = 3"
  by (simp_all add: ex_igroup_def ex_egroup_def)

lemma ex_counts:
  "record_counts ex_igroup = [0, 1, 2]" "record_counts ex_egroup = [2, 0, 1]"
  by (simp_all add: record_counts_def ex_igroup_def ex_egroup_def ex_c0_def ex_c1_def ex_c2_def)

lemma ex_prefix:
  "prefix_sums [0, 1, 2] = [0, 0, 1]" "prefix_sums [2, 0, 1] = [0, 2, 2]"
  "prefix_sums [0, 11, 22] = [0, 0, 11]" "prefix_sums [22, 0, 11] = [0, 22, 22]"
  by (simp_all add: prefix_sums_def upt_3)

lemma ex_records:
  "records ex_c0 = []" "records ex_c1 = [record_at ex_c1 0]"
  "records ex_c2 = [record_at ex_c2 0, record_at ex_c2 (Suc 0)]"
  by (simp_all add: records_def ex_c0_def ex_c1_def ex_c2_def upt_2)

lemma ex_flags:
  "flag (record_at ex_c2 0) = 0" "flag (record_at ex_c2 (Suc 0)) = 2"
  by (simp_all add: record_at_def ex_c2_def)

lemma ex_spec_records:
  "spec_records ex_c0 = []"
  "spec_records ex_c1
     = [\<lparr>gid = 101, flag = 2, esc_step = 7, r = 1, z = 2, phi = 3, rho = 4, w1 = 5, w2 = 6,
         mu = 7, w0 = 8, f0 = 9, psi = 10, B = 11, dw = 1\<rparr>]"
  "spec_records ex_c2
     = [\<lparr>gid = 201, flag = 0, esc_step = 8, r = 21, z = 22, phi = 23, rho = 24, w1 = 25,
         w2 = 26, mu = 27, w0 = 28, f0 = 29, psi = 30, B = 31, dw = 2\<rparr>,
        \<lparr>gid = 202, flag = 2, esc_step = 9, r = 41, z = 42, phi = 43, rho = 44, w1 = 45,
         w2 = 46, mu = 47, w0 = 48, f0 = 49, psi = 50, B = 51, dw = 3\<rparr>]"
  by (simp_all add: spec_records_def spec_record_def ex_c0_def ex_c1_def ex_c2_def upt_2)

theorem gather_roundtrip_witness:
  "\<exists>itotal etotal calls.
     consolidate 0 3 ex_igroup ex_egroup = Inr (itotal, etotal, calls)
     \<and> length (gid_v itotal) = 3
     \<and> map (make_particle itotal) [0..<length (gid_v itotal)]
         = [Inr \<lparr>gid = 101, flag = 2, esc_step = 7, r = 1, z = 2, phi = 3, rho = 4, w1 = 5,
                 w2 = 6, mu = 7, w0 = 8, f0 = 9, psi = 10, B = 11, dw = 1\<rparr>,
            Inr \<lparr>gid = 201, flag = 0, esc_step = 8, r = 21, z = 22, phi = 23, rho = 24,
                 w1 = 25, w2 = 26, mu = 27, w0 = 28, f0 = 29, psi = 30, B = 31, dw = 2\<rparr>,
            Inr \<lparr>gid = 202, flag = 2, esc_step = 9, r = 41, z = 42, phi = 43, rho = 44,
                 w1 = 45, w2 = 46, mu = 47, w0 = 48, f0 = 49, psi = 50, B = 51, dw = 3\<rparr>]
     \<and> make_particle etotal 2
         = Inr \<lparr>gid = 101, flag = 2, esc_step = 7, r = 1, z = 2, phi = 3, rho = 4, w1 = 5,
                w2 = 6, mu = 7, w0 = 8, f0 = 9, psi = 10, B = 11, dw = 1\<rparr>"
proof -
  obtain itotal etotal calls where
    c: "consolidate 0 3 ex_igroup ex_egroup = Inr (itotal, etotal, calls)"
    and l: "length (gid_v itotal) = sum_list (map (\<lambda>c. length (gid_v c)) ex_igroup)"
    and ri: "map (make_particle itotal) [0..<length (gid_v itotal)]
               = map Inr (concat (map spec_records ex_igroup))"
    and re: "\<forall>q<3. \<forall>i<length (gid_v (ex_egroup ! q)).
               make_particle etotal (sum_list (map (\<lambda>c. length (gid_v c)) (take q ex_egroup)) + i)
                 = Inr (spec_record (ex_egroup ! q) i)"
    using gather_roundtrip [OF ex_groups_aligned ex_fit ex_lengths] by blast
  have a1: "length (gid_v itotal) = 3"
    using l ex_total(1) by (simp add: total_records_def)
  have a2: "map (make_particle itotal) [0..<length (gid_v itotal)]
         = [Inr \<lparr>gid = 101, flag = 2, esc_step = 7, r = 1, z = 2, phi = 3, rho = 4, w1 = 5,
                 w2 = 6, mu = 7, w0 = 8, f0 = 9, psi = 10, B = 11, dw = 1\<rparr>,
            Inr \<lparr>gid = 201, flag = 0, esc_step = 8, r = 21, z = 22, phi = 23, rho = 24,
                 w1 = 25, w2 = 26, mu = 27, w0 = 28, f0 = 29, psi = 30, B = 31, dw = 2\<rparr>,
            Inr \<lparr>gid = 202, flag = 2, esc_step = 9, r = 41, z = 42, phi = 43, rho = 44,
                 w1 = 45, w2 = 46, mu = 47, w0 = 48, f0 = 49, psi = 50, B = 51, dw = 3\<rparr>]"
    unfolding ri by (simp add: ex_igroup_def ex_spec_records)
  have a3: "make_particle etotal 2
         = Inr \<lparr>gid = 101, flag = 2, esc_step = 7, r = 1, z = 2, phi = 3, rho = 4, w1 = 5,
                w2 = 6, mu = 7, w0 = 8, f0 = 9, psi = 10, B = 11, dw = 1\<rparr>"
  proof -
    have "make_particle etotal (sum_list (map (\<lambda>c. length (gid_v c)) (take 2 ex_egroup)) + 0)
            = Inr (spec_record (ex_egroup ! 2) 0)"
      using re [rule_format, of 2 0] by (simp add: ex_egroup_def ex_c1_def)
    moreover have "sum_list (map (\<lambda>c. length (gid_v c)) (take 2 ex_egroup)) = 2"
      by (simp add: ex_egroup_def ex_c2_def ex_c0_def numeral_2_eq_2)
    moreover have "spec_record (ex_egroup ! 2) 0 = hd (spec_records ex_c1)"
      by (simp add: ex_egroup_def spec_records_def ex_c1_def)
    ultimately show ?thesis by (simp add: ex_spec_records)
  qed
  show ?thesis
    by (rule exI [of _ itotal], rule exI [of _ etotal], rule exI [of _ calls])
      (intro conjI c a1 a2 a3)
qed

theorem escape_classification_witness:
  "\<exists>iesc eesc idiv0 ediv0 iesc' eesc' idiv ediv.
     classify ex_escaped 0 3 ex_igroup ex_egroup = Inr (iesc, eesc, idiv0, ediv0)
     \<and> classify ex_escaped 2 3 ex_igroup ex_egroup = Inr (iesc', eesc', idiv, ediv)
     \<and> record_at ex_c2 (Suc 0) \<in> set iesc \<and> record_at ex_c2 (Suc 0) \<notin> set idiv
     \<and> record_at ex_c2 0 \<in> set idiv \<and> record_at ex_c2 0 \<notin> set iesc"
proof -
  have rk: "(2::nat) < 3" by simp
  obtain iesc eesc idiv0 ediv0 iesc' eesc' idiv ediv where
    c: "classify ex_escaped 0 3 ex_igroup ex_egroup = Inr (iesc, eesc, idiv0, ediv0)"
      "classify ex_escaped 2 3 ex_igroup ex_egroup = Inr (iesc', eesc', idiv, ediv)"
    and p: "\<forall>p\<in>set (records (ex_igroup ! 2)).
               (ex_escaped (flag p) \<longrightarrow> p \<in> set iesc \<and> p \<notin> set idiv)
             \<and> (\<not> ex_escaped (flag p) \<longrightarrow> p \<in> set idiv \<and> p \<notin> set iesc)"
    using escape_classification [OF ex_groups_aligned ex_fit ex_lengths rk, of ex_escaped]
    by blast
  have "records (ex_igroup ! 2) = [record_at ex_c2 0, record_at ex_c2 (Suc 0)]"
    by (simp add: ex_igroup_def ex_records)
  then have "record_at ex_c2 (Suc 0) \<in> set iesc \<and> record_at ex_c2 (Suc 0) \<notin> set idiv
     \<and> record_at ex_c2 0 \<in> set idiv \<and> record_at ex_c2 0 \<notin> set iesc"
    using p by (simp add: ex_flags ex_escaped_def)
  then show ?thesis using c by blast
qed

theorem gather_tables_witness:
  "\<exists>itotal etotal.
     consolidate 0 3 ex_igroup ex_egroup
       = Inr (itotal, etotal,
           [([0, 1, 2], [0, 0, 1]), ([0, 1, 2], [0, 0, 1]), ([0, 1, 2], [0, 0, 1]),
            ([0, 1, 2], [0, 0, 1]), ([0, 11, 22], [0, 0, 11]),
            ([2, 0, 1], [0, 2, 2]), ([2, 0, 1], [0, 2, 2]), ([2, 0, 1], [0, 2, 2]),
            ([2, 0, 1], [0, 2, 2]), ([22, 0, 11], [0, 22, 22])])"
  using gather_tables [OF ex_groups_aligned ex_fit ex_lengths, of 0, THEN conjunct1]
  by (simp add: ex_counts ex_prefix NPHASE_def)

lemma ex_read_species: "read_species [ex_hb] (Suc 0) 0 = Inr ex_c2"
  by (simp add: read_species_def split_vector_def Let_def block_ncount_def to_int32_def
      ex_hb_def ex_c2_def)

lemma ex_step_h:
  assumes "rank_h h = 0" "comm_size_h h = Suc 0" "istep_h h < INT_MAX"
  shows "\<exists>h'. step_h ex_escaped psync OK [ex_hb] [ex_hb] [ex_c0] [ex_c0] h = Inr h'"
proof -
  have a: "\<forall>c\<in>set [ex_c2]. aligned c" by (simp add: ex_aligned)
  have f: "int (total_records [ex_c2]) * int NPHASE \<le> INT_MAX"
    by (simp add: total_records_def ex_c2_def NPHASE_def INT_MAX_def)
  have l: "length [ex_c2] = Suc 0" "0 < Suc 0" by simp_all
  note c = classify_result [OF a a f f l(1) l(1) l(2), of ex_escaped]
  show ?thesis
    unfolding step_h_def using assms by (simp add: ex_read_species c Let_def)
qed

lemma ex_run_h:
  assumes "rank_h h = 0" "comm_size_h h = Suc 0" "istep_h h < INT_MAX"
  shows "\<exists>h'. run_h ex_escaped psync ex_hcalls h = Inr h'"
proof -
  obtain h1 where h1: "step_h ex_escaped psync OK [ex_hb] [ex_hb] [ex_c0] [ex_c0] h = Inr h1"
    using ex_step_h [OF assms] by blast
  have s1: "step_h ex_escaped psync NotReady [] [] [] [] h = Inr h"
    by (simp add: step_h_def)
  have s3: "step_h ex_escaped psync EndOfStream [] [] [] [] h1 = Inr h1"
    by (simp add: step_h_def)
  show ?thesis
    unfolding run_h_def ex_hcalls_def by (simp add: s1 h1 s3)
qed

theorem istep_counts_steps_witness:
  "\<exists>st0 st' h'. Diffusion_new True 0 1 2 = Inr st0 \<and> istep st0 = 0
     \<and> run ex_calls st0 = Inr st' \<and> istep st' = 2
     \<and> run_h ex_escaped (\<lambda>esc. esc) ex_hcalls (Heatload_new 0 1) = Inr h' \<and> istep_h h' = 1"
proof -
  obtain st0 where st0: "Diffusion_new True 0 1 2 = Inr st0"
    by (simp add: Diffusion_new_def reset_def Let_def)
  then have f: "rank st0 = 0" "comm_size st0 = 1" "ntriangle st0 = 2" "istep st0 = 0"
    by (auto simp: Diffusion_new_def reset_def Let_def)
  obtain st' where r: "run ex_calls st0 = Inr st'"
    using ex_run [OF f] by blast
  obtain h' where rh: "run_h ex_escaped (\<lambda>esc. esc) ex_hcalls (Heatload_new 0 1) = Inr h'"
    using ex_run_h [of "Heatload_new 0 1" "\<lambda>esc. esc"]
    by (auto simp: Heatload_new_def INT_MAX_def)
  note t = istep_counts_steps [of True 0 1 2 OK "[]" "[]" st0 ex_escaped "\<lambda>esc. esc" "[]" "[]" "[]" "[]"
      "Heatload_new 0 1" ex_calls ex_hcalls]
  have "istep st' = 2"
    using t r f(4) by (simp add: ex_calls_def)
  moreover have "istep_h h' = 1"
    using t rh by (simp add: ex_hcalls_def)
  ultimately show ?thesis using st0 f(4) r rh by blast
qed

end
